theory Spec2Isabelle
  imports Complex_Main "HOL-Library.Multiset" "HOL-Library.Log_Nat"
begin

section \<open>Data model\<close>

text \<open>
  The metrics module (\<^verbatim>\<open>web/js/metrics.js\<close>) reads two fields of a Nostr event:
  \<^verbatim>\<open>created_at\<close> (unix seconds, an integer) and \<^verbatim>\<open>tags\<close> (an array of arrays of
  strings). JavaScript numbers that hold integers (timestamps, parsed amounts, counts)
  are modelled by \<^typ>\<open>int\<close> and \<^typ>\<open>nat\<close>, which is exact below \<open>2^53\<close>. The quotients
  \<^verbatim>\<open>daysActive\<close> and \<^verbatim>\<open>mean\<close>, which the report hands on as they are, are modelled by
  the exact rational (\<^typ>\<open>rat\<close>) of which the double is the rounding. In calculateScore,
  where a floor is taken of a sum of doubles, every operation is rounded as the
  language rounds it (\<open>round64\<close> below).
\<close>

record raw_event =
  created_at :: int
  tags :: "string list list"

definition SECONDS_PER_DAY :: int where
  "SECONDS_PER_DAY = 86400"

subsection \<open>Tag lookup (\<^verbatim>\<open>js/nostr.js\<close>, getTagValue)\<close>

text \<open>
  \<^verbatim>\<open>event.tags.find(t => t[0] === tagName)\<close> returns the first tag whose first element
  is the name; \<^verbatim>\<open>tag ? tag[1] : null\<close> then yields the second element. Both \<^verbatim>\<open>null\<close>
  (no such tag) and \<^verbatim>\<open>undefined\<close> (a tag with fewer than two elements) are \<open>None\<close>:
  every use in the metrics module is a truthiness test or a \<^verbatim>\<open>===\<close> against a string
  literal, which do not tell them apart.
\<close>

definition getTagValue :: "raw_event \<Rightarrow> string \<Rightarrow> string option" where
  "getTagValue event tagName =
     (case find (\<lambda>t. case t of [] \<Rightarrow> False | n # _ \<Rightarrow> n = tagName) (tags event) of
        None \<Rightarrow> None
      | Some tag \<Rightarrow> (case tag of _ # v # _ \<Rightarrow> Some v | _ \<Rightarrow> None))"

text \<open>
  Where the source tests a tag value for truthiness (\<^verbatim>\<open>if (orderId)\<close>,
  \<^verbatim>\<open>if (amtStr)\<close>), the model tests for \<open>Some s\<close> with \<open>s \<noteq> []\<close>: absent values and
  the empty string are falsy.
\<close>

section \<open>computeTradeStats\<close>

text \<open>
  The returned object \<^verbatim>\<open>{ min, max, mean, median }\<close>; the fields carry a suffix since
  \<open>min\<close> and \<open>max\<close> are constants of the logic.
\<close>

record trade_stats =
  min_s :: int
  max_s :: int
  mean_s :: rat
  median_s :: int

definition computeTradeStats :: "int list \<Rightarrow> trade_stats" where
  "computeTradeStats amounts =
     (if length amounts = 0 then \<lparr>min_s = 0, max_s = 0, mean_s = 0, median_s = 0\<rparr>
      else
        let sorted = sort amounts;
            sum = foldl (\<lambda>acc val. acc + val) 0 amounts;
            mean = of_int sum / of_nat (length amounts);
            len = length sorted;
            median =
              (if len mod 2 = 0
               then (sorted ! (len div 2 - 1) + sorted ! (len div 2)) div 2
               else sorted ! (len div 2))
        in \<lparr>min_s = sorted ! 0, max_s = sorted ! (length sorted - 1),
            mean_s = mean, median_s = median\<rparr>)"

section \<open>computeRollingWindows\<close>

record rolling_windows =
  last7d :: nat
  last30d :: nat
  last90d :: nat

definition computeRollingWindows :: "int list \<Rightarrow> int \<Rightarrow> rolling_windows" where
  "computeRollingWindows timestamps now =
     (let day7 = now - 7 * SECONDS_PER_DAY;
          day30 = now - 30 * SECONDS_PER_DAY;
          day90 = now - 90 * SECONDS_PER_DAY
      in \<lparr>last7d = length (filter (\<lambda>ts. ts \<ge> day7) timestamps),
          last30d = length (filter (\<lambda>ts. ts \<ge> day30) timestamps),
          last90d = length (filter (\<lambda>ts. ts \<ge> day90) timestamps)\<rparr>)"

section \<open>computeActivityConsistency\<close>

text \<open>
  \<^verbatim>\<open>new Set(iterable)\<close> keeps the first occurrence of each element, in order.
\<close>

definition newSet :: "'a list \<Rightarrow> 'a list" where
  "newSet xs = foldl (\<lambda>s x. if x \<in> set s then s else s @ [x]) [] xs"

record activity_consistency =
  activeDays :: nat
  maxGap :: int

text \<open>
  One iteration of \<^verbatim>\<open>for (const day of days)\<close> on the pair of the local variables
  \<^verbatim>\<open>maxGap\<close> (here \<open>curMax\<close>) and \<^verbatim>\<open>prevDay\<close>.
\<close>

definition gapStep :: "int \<times> int \<Rightarrow> int \<Rightarrow> int \<times> int" where
  "gapStep st day =
     (case st of (curMax, prevDay) \<Rightarrow>
        let gap = max 0 (day - prevDay - 1) in (max curMax gap, day))"

definition computeActivityConsistency :: "int list \<Rightarrow> int \<Rightarrow> activity_consistency" where
  "computeActivityConsistency timestamps now =
     (let day30Ago = now - 30 * SECONDS_PER_DAY;
          activeDaysSet =
            newSet (map (\<lambda>ts. ts div SECONDS_PER_DAY) (filter (\<lambda>ts. ts \<ge> day30Ago) timestamps));
          activeDaysCount = length activeDaysSet
      in if length activeDaysSet = 0 then \<lparr>activeDays = 0, maxGap = 30\<rparr>
         else
           let days = sort activeDaysSet;
               today = now div SECONDS_PER_DAY;
               day30Start = day30Ago div SECONDS_PER_DAY
           in case foldl gapStep (0, day30Start) days of
                (curMax, prevDay) \<Rightarrow>
                  let finalGap = max 0 (today - prevDay)
                  in \<lparr>activeDays = activeDaysCount, maxGap = max curMax finalGap\<rparr>)"

section \<open>calculateScore\<close>

subsection \<open>Double arithmetic\<close>

text \<open>
  A JavaScript number is an IEEE 754 binary64 value, and \<^verbatim>\<open>/\<close>, \<^verbatim>\<open>*\<close> and \<^verbatim>\<open>+\<close> return the
  double nearest to the exact result, a tie going to the even significand. Finite doubles
  are rationals, so an operation is the exact operation on \<^typ>\<open>rat\<close> followed by
  \<open>round64\<close>. Overflow to \<^verbatim>\<open>Infinity\<close>, \<^verbatim>\<open>NaN\<close> and the sign of zero are not modelled: on
  finite arguments no operation of calculateScore overflows, and \<^verbatim>\<open>Math.floor\<close> of either
  zero prints as 0.
\<close>

text \<open>\<open>pow2 k\<close> is \<open>2\<close> to the power \<open>k\<close>, for an integer \<open>k\<close>.\<close>

definition pow2 :: "int \<Rightarrow> rat" where
  "pow2 k = (if 0 \<le> k then 2 ^ nat k else 1 / 2 ^ nat (- k))"

text \<open>The nearest integer, a tie going to the even one.\<close>

definition rne :: "rat \<Rightarrow> int" where
  "rne x =
     (let f = \<lfloor>x\<rfloor>; r = x - of_int f
      in if r < 1 / 2 then f
         else if 1 / 2 < r then f + 1
         else if even f then f else f + 1)"

text \<open>
  The binary exponent of a non-zero number: \<open>pow2 (expo x) \<le> \<bar>x\<bar> < pow2 (expo x + 1)\<close>
  (lemma \<open>expo_bounds\<close> below).
\<close>

definition expo :: "rat \<Rightarrow> int" where
  "expo x =
     (case quotient_of \<bar>x\<bar> of
        (p, q) \<Rightarrow> let k = bitlen p - bitlen q in if pow2 k \<le> \<bar>x\<bar> then k else k - 1)"

text \<open>
  The double nearest to a rational: 53 significant bits, the spacing of the subnormal
  range below \<open>pow2 (- 1022)\<close>.
\<close>

definition round64 :: "rat \<Rightarrow> rat" where
  "round64 x =
     (if x = 0 then 0
      else let u = pow2 (max (expo x) (- 1022) - 52) in of_int (rne (x / u)) * u)"

subsection \<open>The score\<close>

text \<open>
  Each \<^verbatim>\<open>score += e\<close> is the rounded sum of \<^verbatim>\<open>score\<close> and the rounded value of \<^verbatim>\<open>e\<close>. The
  arguments are doubles: \<open>volumeSats\<close> and \<open>successfulOrders\<close> are integers (below
  \<open>2^53\<close>), \<open>daysActive\<close> is any finite double.
\<close>

definition calculateScore :: "rat \<Rightarrow> int \<Rightarrow> nat \<Rightarrow> int" where
  "calculateScore daysActive volumeSats successfulOrders =
     (let score = 0;
          score = round64 (score + round64 (min 1 (round64 (daysActive / 365)) * 30));
          btcVol = round64 (of_int volumeSats / 100000000);
          score = round64 (score + round64 (min 1 (round64 (btcVol / 1)) * 40));
          score = round64 (score + round64 (min 1 (round64 (of_nat successfulOrders / 100)) * 30))
      in \<lfloor>score\<rfloor>)"

section \<open>First loop of computeMetrics: time range and deduplication\<close>

text \<open>
  A JavaScript \<^verbatim>\<open>Map\<close> iterates in insertion order and \<^verbatim>\<open>set\<close> on a present key keeps
  the key's position, so the map is an association list updated in place.
\<close>

fun mapSet :: "('k \<times> 'v) list \<Rightarrow> 'k \<Rightarrow> 'v \<Rightarrow> ('k \<times> 'v) list" where
  "mapSet [] k v = [(k, v)]"
| "mapSet ((k', v') # m) k v =
     (if k' = k then (k, v) # m else (k', v') # mapSet m k v)"

definition mapGet :: "('k \<times> 'v) list \<Rightarrow> 'k \<Rightarrow> 'v option" where
  "mapGet m k = map_of m k"

definition mapValues :: "('k \<times> 'v) list \<Rightarrow> 'v list" where
  "mapValues m = map snd m"

text \<open>
  The loop variables. \<^verbatim>\<open>firstOrderTs\<close> starts at \<^verbatim>\<open>Infinity\<close>, which is \<open>None\<close> here.
\<close>

record scan_state =
  ordersMap :: "(string \<times> raw_event) list"
  firstOrderTs :: "int option"
  lastOrderTs :: int

definition scanInit :: scan_state where
  "scanInit = \<lparr>ordersMap = [], firstOrderTs = None, lastOrderTs = 0\<rparr>"

definition trackFirst :: "int option \<Rightarrow> int \<Rightarrow> int option" where
  "trackFirst first eventTs =
     (case first of
        None \<Rightarrow> Some eventTs
      | Some f \<Rightarrow> if eventTs < f then Some eventTs else Some f)"

definition trackLast :: "int \<Rightarrow> int \<Rightarrow> int" where
  "trackLast lst eventTs = (if eventTs > lst then eventTs else lst)"

definition dedupStep :: "(string \<times> raw_event) list \<Rightarrow> raw_event \<Rightarrow> (string \<times> raw_event) list" where
  "dedupStep m event =
     (case getTagValue event ''d'' of
        None \<Rightarrow> m
      | Some orderId \<Rightarrow>
          if orderId = [] then m
          else (case mapGet m orderId of
                  None \<Rightarrow> mapSet m orderId event
                | Some existing \<Rightarrow>
                    if created_at event > created_at existing
                    then mapSet m orderId event else m))"

definition scanStep :: "scan_state \<Rightarrow> raw_event \<Rightarrow> scan_state" where
  "scanStep st event =
     \<lparr>ordersMap = dedupStep (ordersMap st) event,
      firstOrderTs = trackFirst (firstOrderTs st) (created_at event),
      lastOrderTs = trackLast (lastOrderTs st) (created_at event)\<rparr>"

definition scanOrders :: "raw_event list \<Rightarrow> scan_state" where
  "scanOrders orderEvents = foldl scanStep scanInit orderEvents"

text \<open>The deduplicator on its own: the \<^verbatim>\<open>ordersMap\<close> component of the loop.\<close>

definition dedupOrders :: "raw_event list \<Rightarrow> (string \<times> raw_event) list" where
  "dedupOrders orderEvents = foldl dedupStep [] orderEvents"

text \<open>The order identifier under which an event is stored, if any.\<close>

definition orderIdOf :: "raw_event \<Rightarrow> string option" where
  "orderIdOf event =
     (case getTagValue event ''d'' of
        None \<Rightarrow> None
      | Some s \<Rightarrow> if s = [] then None else Some s)"

section \<open>Second loop of computeMetrics: successful orders\<close>

subsection \<open>parseInt(str, 10)\<close>

text \<open>
  The built-in \<^verbatim>\<open>parseInt\<close> with radix 10: leading white space is skipped, one sign is
  read, then the longest run of decimal digits; with no digit the result is \<^verbatim>\<open>NaN\<close>
  (\<open>None\<close>). Strings are byte strings here, so the white space is the ASCII part of
  the language's white space, and the value is an unbounded integer (a double in the
  source, exact below \<open>2^53\<close>).
\<close>

definition isWhiteSpace :: "char \<Rightarrow> bool" where
  "isWhiteSpace c = (of_char c \<in> {9, 10, 11, 12, 13, 32 :: nat})"

definition isDigit :: "char \<Rightarrow> bool" where
  "isDigit c = (48 \<le> (of_char c :: nat) \<and> (of_char c :: nat) \<le> 57)"

definition digitValue :: "char \<Rightarrow> int" where
  "digitValue c = int (of_char c) - 48"

definition digitsValue :: "string \<Rightarrow> int" where
  "digitsValue ds = foldl (\<lambda>acc c. acc * 10 + digitValue c) 0 ds"

definition parseInt :: "string \<Rightarrow> int option" where
  "parseInt str =
     (let t = dropWhile isWhiteSpace str;
          neg = (case t of [] \<Rightarrow> False | c # _ \<Rightarrow> c = CHR ''-'');
          u = (case t of [] \<Rightarrow> [] | c # r \<Rightarrow> if c = CHR ''-'' \<or> c = CHR ''+'' then r else t);
          ds = takeWhile isDigit u
      in if ds = [] then None
         else Some (if neg then - digitsValue ds else digitsValue ds))"

subsection \<open>The loop over \<^verbatim>\<open>ordersMap.values()\<close>\<close>

record tally =
  successfulOrders :: nat
  totalVolumeSats_acc :: int
  tradeAmounts :: "int list"
  successfulTradeTimestamps :: "int list"

definition tallyInit :: tally where
  "tallyInit = \<lparr>successfulOrders = 0, totalVolumeSats_acc = 0, tradeAmounts = [],
                successfulTradeTimestamps = []\<rparr>"

text \<open>The inner \<^verbatim>\<open>if (amtStr) { ... if (!isNaN(amount) && amount > 0) ... }\<close>.\<close>

definition addAmount :: "tally \<Rightarrow> raw_event \<Rightarrow> tally" where
  "addAmount t event =
     (case getTagValue event ''amt'' of
        None \<Rightarrow> t
      | Some amtStr \<Rightarrow>
          if amtStr = [] then t
          else (case parseInt amtStr of
                  None \<Rightarrow> t
                | Some amount \<Rightarrow>
                    if amount > 0
                    then t\<lparr>totalVolumeSats_acc := totalVolumeSats_acc t + amount,
                           tradeAmounts := tradeAmounts t @ [amount]\<rparr>
                    else t))"

definition tallyStep :: "tally \<Rightarrow> raw_event \<Rightarrow> tally" where
  "tallyStep t event =
     (if getTagValue event ''s'' = Some ''success''
      then addAmount
             (t\<lparr>successfulOrders := successfulOrders t + 1,
                successfulTradeTimestamps := successfulTradeTimestamps t @ [created_at event]\<rparr>)
             event
      else t)"

definition tallyOrders :: "raw_event list \<Rightarrow> tally" where
  "tallyOrders events = foldl tallyStep tallyInit events"

section \<open>computeMetrics\<close>

record metrics_report =
  firstActivity :: "int option"
  daysActive :: rat
  hasDevFeeEvents :: bool
  lastTrade :: "int option"
  daysSinceLast :: int
  trades7d :: nat
  trades30d :: nat
  trades90d :: nat
  activeDays30d :: nat
  maxInactiveGap :: int
  successfulTrades :: nat
  totalVolumeSats :: int
  minTrade :: int
  maxTrade :: int
  meanTrade :: rat
  medianTrade :: int
  hasTradeStats :: bool
  trustScore :: int
  totalOrderEvents :: nat
  uniqueOrders :: nat
  devFeeCount :: nat

text \<open>
  \<^verbatim>\<open>[...devFeeEvents].sort((a, b) => a.created_at - b.created_at)[0].created_at\<close>, or
  \<^verbatim>\<open>null\<close> for an empty array. The sort of the language is stable, as \<open>sort_key\<close> is.
\<close>

definition firstDevFeeTs :: "raw_event list \<Rightarrow> int option" where
  "firstDevFeeTs devFeeEvents =
     (if length devFeeEvents > 0
      then Some (created_at (hd (sort_key created_at devFeeEvents)))
      else None)"

text \<open>
  The \<^verbatim>\<open>days_active\<close> cascade. In the second branch \<^verbatim>\<open>firstOrderTs\<close> is finite, since
  \<^verbatim>\<open>lastOrderTs > 0\<close> only after an event was seen (lemma \<open>scan_first_finite\<close> below);
  the branch for \<^verbatim>\<open>Infinity\<close> is therefore never taken, and gives 0 here.
\<close>

definition daysActiveOf :: "int \<Rightarrow> int option \<Rightarrow> scan_state \<Rightarrow> rat" where
  "daysActiveOf now firstDevFee st =
     (case firstDevFee of
        Some f \<Rightarrow> of_int (now - f) / of_int SECONDS_PER_DAY
      | None \<Rightarrow>
          if lastOrderTs st > 0
          then (case firstOrderTs st of
                  Some fo \<Rightarrow> of_int (lastOrderTs st - fo) / of_int SECONDS_PER_DAY
                | None \<Rightarrow> 0)
          else 0)"

text \<open>
  The body of computeMetrics after its first line, with \<^verbatim>\<open>now\<close> bound. The variable
  \<^verbatim>\<open>daysActive\<close> of the source holds the double of the quotient, \<open>round64 daysActive\<close>
  here, and that is what calculateScore receives.
\<close>

definition metricsAt :: "int \<Rightarrow> raw_event list \<Rightarrow> raw_event list \<Rightarrow> metrics_report" where
  "metricsAt now devFeeEvents orderEvents =
     (let firstDevFee = firstDevFeeTs devFeeEvents;
          st = scanOrders orderEvents;
          t = tallyOrders (mapValues (ordersMap st));
          daysActive = daysActiveOf now firstDevFee st;
          instanceStarted = firstDevFee;
          tradeStats = computeTradeStats (tradeAmounts t);
          rollingWindows = computeRollingWindows (successfulTradeTimestamps t) now;
          activityConsistency = computeActivityConsistency (successfulTradeTimestamps t) now;
          daysSinceLast =
            (if lastOrderTs st > 0 then (now - lastOrderTs st) div SECONDS_PER_DAY else 0);
          score = calculateScore (round64 daysActive) (totalVolumeSats_acc t) (successfulOrders t)
      in \<lparr>firstActivity = instanceStarted,
          daysActive = daysActive,
          hasDevFeeEvents = (firstDevFee \<noteq> None),
          lastTrade = (if lastOrderTs st > 0 then Some (lastOrderTs st) else None),
          daysSinceLast = daysSinceLast,
          trades7d = last7d rollingWindows,
          trades30d = last30d rollingWindows,
          trades90d = last90d rollingWindows,
          activeDays30d = activeDays activityConsistency,
          maxInactiveGap = maxGap activityConsistency,
          successfulTrades = successfulOrders t,
          totalVolumeSats = totalVolumeSats_acc t,
          minTrade = min_s tradeStats,
          maxTrade = max_s tradeStats,
          meanTrade = mean_s tradeStats,
          medianTrade = median_s tradeStats,
          hasTradeStats = (length (tradeAmounts t) > 0),
          trustScore = score,
          totalOrderEvents = length orderEvents,
          uniqueOrders = length (ordersMap st),
          devFeeCount = length devFeeEvents\<rparr>)"

text \<open>
  computeMetrics takes the two event arrays only; its first statement is
  \<^verbatim>\<open>const now = Math.floor(Date.now() / 1000)\<close>. The reading of the clock is an input of
  the model: \<open>dateNow\<close> is what \<^verbatim>\<open>Date.now()\<close> returns (milliseconds since the epoch)
  during the call.
\<close>

definition computeMetrics :: "int \<Rightarrow> raw_event list \<Rightarrow> raw_event list \<Rightarrow> metrics_report" where
  "computeMetrics dateNow devFeeEvents orderEvents =
     (let now = dateNow div 1000 in metricsAt now devFeeEvents orderEvents)"

section \<open>Notions used to state the properties\<close>

text \<open>
  \<open>keptFor k w evs\<close>: the event \<open>w\<close> carries the identifier \<open>k\<close>, every event with
  that identifier before it in \<open>evs\<close> is strictly older, and every one after it is not
  newer: \<open>w\<close> is the first of the newest events for \<open>k\<close>.
\<close>

definition keptFor :: "string \<Rightarrow> raw_event \<Rightarrow> raw_event list \<Rightarrow> bool" where
  "keptFor k w evs \<longleftrightarrow>
     (\<exists>pre post. evs = pre @ w # post \<and> orderIdOf w = Some k
        \<and> (\<forall>e \<in> set pre. orderIdOf e = Some k \<longrightarrow> created_at e < created_at w)
        \<and> (\<forall>e \<in> set post. orderIdOf e = Some k \<longrightarrow> created_at e \<le> created_at w))"

text \<open>
  \<open>isSuccess\<close>: the status test of the second loop. \<open>includedAmount\<close>: the amount an
  order contributes, when its \<^verbatim>\<open>amt\<close> tag is present and parses to a positive number.
\<close>

definition isSuccess :: "raw_event \<Rightarrow> bool" where
  "isSuccess event \<longleftrightarrow> getTagValue event ''s'' = Some ''success''"

definition includedAmount :: "raw_event \<Rightarrow> int option" where
  "includedAmount event =
     (case getTagValue event ''amt'' of
        None \<Rightarrow> None
      | Some s \<Rightarrow> (case parseInt s of
                    None \<Rightarrow> None
                  | Some n \<Rightarrow> if n > 0 then Some n else None))"

text \<open>
  \<open>gapsBefore p days\<close>: for each day of the list, the number of days strictly between
  it and the one before it (\<open>p\<close> before the first), not below 0.
\<close>

fun gapsBefore :: "int \<Rightarrow> int list \<Rightarrow> int list" where
  "gapsBefore p [] = []"
| "gapsBefore p (d # ds) = max 0 (d - p - 1) # gapsBefore d ds"

text \<open>
  \<open>windowDays timestamps now\<close>: the calendar-day buckets of the timestamps in the
  trailing 30-day window.
\<close>

definition windowDays :: "int list \<Rightarrow> int \<Rightarrow> int set" where
  "windowDays timestamps now =
     set (map (\<lambda>ts. ts div 86400) (filter (\<lambda>ts. ts \<ge> now - 30 * 86400) timestamps))"

text \<open>
  \<open>noTies evs\<close>: no two distinct events of \<open>evs\<close> carry the same order identifier with
  the same timestamp.
\<close>

definition noTies :: "raw_event list \<Rightarrow> bool" where
  "noTies evs \<longleftrightarrow>
     (\<forall>e \<in> set evs. \<forall>e' \<in> set evs.
        orderIdOf e \<noteq> None \<and> orderIdOf e = orderIdOf e' \<and> created_at e = created_at e'
          \<longrightarrow> e = e')"

text \<open>
  \<open>scoreFormula\<close>: the value of the score formula in exact arithmetic, before the floor.
\<close>

definition scoreFormula :: "rat \<Rightarrow> int \<Rightarrow> nat \<Rightarrow> rat" where
  "scoreFormula days sats trades =
     min 1 (days / 365) * 30 + min 1 (of_int sats / 100000000) * 40
       + min 1 (of_nat trades / 100) * 30"

text \<open>Shorthand for writing concrete events.\<close>

abbreviation ev :: "int \<Rightarrow> string list list \<Rightarrow> raw_event" where
  "ev t tg \<equiv> \<lparr>created_at = t, tags = tg\<rparr>"

section \<open>Properties of the helper functions\<close>

lemma length_filter_mono:
  "(\<And>x. x \<in> set xs \<Longrightarrow> P x \<Longrightarrow> Q x) \<Longrightarrow> length (filter P xs) \<le> length (filter Q xs)"
  by (induction xs) auto

text \<open>
  Claim C6. For every list of successful-trade timestamps and every \<open>now\<close>, the
  rolling-window counts are ordered, \<open>trades7d \<le> trades30d \<le> trades90d\<close>; the count of
  the window of \<open>W\<close> days is the number of timestamps \<open>ts\<close> with
  \<open>ts \<ge> now - W * 86400\<close>, and there is no upper bound: every timestamp at or after
  \<open>now\<close> is counted in the shortest window, hence in all three.
\<close>

theorem rolling_windows_monotone:
  "last7d (computeRollingWindows tss now) \<le> last30d (computeRollingWindows tss now)
   \<and> last30d (computeRollingWindows tss now) \<le> last90d (computeRollingWindows tss now)
   \<and> last7d (computeRollingWindows tss now) = length (filter (\<lambda>ts. ts \<ge> now - 7 * 86400) tss)
   \<and> last30d (computeRollingWindows tss now) = length (filter (\<lambda>ts. ts \<ge> now - 30 * 86400) tss)
   \<and> last90d (computeRollingWindows tss now) = length (filter (\<lambda>ts. ts \<ge> now - 90 * 86400) tss)
   \<and> length (filter (\<lambda>ts. ts \<ge> now) tss) \<le> last7d (computeRollingWindows tss now)"
  unfolding computeRollingWindows_def SECONDS_PER_DAY_def Let_def
  by (simp add: length_filter_mono)

theorem rolling_windows_monotone_witness:
  "last7d (computeRollingWindows [100, 999000, 1000000, 2000000, - 7000000, - 2000000] 1000000) = 3
   \<and> last30d (computeRollingWindows [100, 999000, 1000000, 2000000, - 7000000, - 2000000] 1000000) = 4
   \<and> last90d (computeRollingWindows [100, 999000, 1000000, 2000000, - 7000000, - 2000000] 1000000) = 5"
  using rolling_windows_monotone [of "[100, 999000, 1000000, 2000000, - 7000000, - 2000000]" 1000000]
  by simp

lemma pow2_powi: "pow2 k = 2 powi k"
  by (simp add: pow2_def power_int_def inverse_eq_divide power_one_over)

lemma pow2_pos: "0 < pow2 k"
  by (simp add: pow2_powi)

lemma pow2_add: "pow2 (a + b) = pow2 a * pow2 b"
  by (simp add: pow2_powi power_int_add)

lemma pow2_mono: "a \<le> b \<Longrightarrow> pow2 a \<le> pow2 b"
  by (simp add: pow2_powi power_int_increasing)

lemma pow2_strict_mono: "a < b \<Longrightarrow> pow2 a < pow2 b"
  by (simp add: pow2_powi power_int_strict_increasing)

lemma pow2_less_iff: "pow2 a < pow2 b \<longleftrightarrow> a < b"
  using pow2_strict_mono [of a b] pow2_mono [of b a] by (auto simp: not_less [symmetric])

lemma pow2_nat: "pow2 (int n) = 2 ^ n"
  by (simp add: pow2_def)

lemma rne_error: "\<bar>of_int (rne x) - x\<bar> \<le> 1 / 2"
proof -
  have "of_int \<lfloor>x\<rfloor> \<le> x" "x < of_int \<lfloor>x\<rfloor> + 1" by linarith+
  then show ?thesis by (auto simp: rne_def Let_def)
qed

lemma rne_of_int: "rne (of_int n) = n"
  by (simp add: rne_def)

lemma rne_mono: "x \<le> y \<Longrightarrow> rne x \<le> rne y"
proof -
  assume xy: "x \<le> y"
  have fx: "of_int \<lfloor>x\<rfloor> \<le> x" "x < of_int \<lfloor>x\<rfloor> + 1" by linarith+
  have fy: "of_int \<lfloor>y\<rfloor> \<le> y" "y < of_int \<lfloor>y\<rfloor> + 1" by linarith+
  have ff: "\<lfloor>x\<rfloor> \<le> \<lfloor>y\<rfloor>" using xy by (rule floor_mono)
  have lo: "\<lfloor>x\<rfloor> \<le> rne x" "rne x \<le> \<lfloor>x\<rfloor> + 1" by (auto simp: rne_def Let_def)
  have loy: "\<lfloor>y\<rfloor> \<le> rne y" "rne y \<le> \<lfloor>y\<rfloor> + 1" by (auto simp: rne_def Let_def)
  show ?thesis
  proof (cases "\<lfloor>x\<rfloor> = \<lfloor>y\<rfloor>")
    case False
    then have "\<lfloor>x\<rfloor> + 1 \<le> \<lfloor>y\<rfloor>" using ff by simp
    then show ?thesis using lo loy by linarith
  next
    case True
    then have "x - of_int \<lfloor>x\<rfloor> \<le> y - of_int \<lfloor>y\<rfloor>" using xy by simp
    then show ?thesis using True by (auto simp: rne_def Let_def)
  qed
qed


lemma expo_bounds:
  assumes "x \<noteq> 0"
  shows "pow2 (expo x) \<le> \<bar>x\<bar> \<and> \<bar>x\<bar> < pow2 (expo x + 1)"
proof -
  obtain p q where pq: "quotient_of \<bar>x\<bar> = (p, q)" by (cases "quotient_of \<bar>x\<bar>")
  have q: "0 < q" using pq by (rule quotient_of_denom_pos)
  have ax: "\<bar>x\<bar> = of_int p / of_int q" using pq by (rule quotient_of_div)
  have "0 < \<bar>x\<bar>" using assms by simp
  then have p: "0 < p" using ax q by (simp add: zero_less_divide_iff)
  let ?a = "bitlen p" and ?b = "bitlen q"
  have a1: "1 \<le> ?a" using p bitlen_eq_zero_iff [of p] bitlen_nonneg [of p] by linarith
  have b1: "1 \<le> ?b" using q bitlen_eq_zero_iff [of q] bitlen_nonneg [of q] by linarith
  have pb: "2 ^ nat (?a - 1) \<le> p" "p < 2 ^ nat ?a" using bitlen_bounds [OF p] by simp_all
  have qb: "2 ^ nat (?b - 1) \<le> q" "q < 2 ^ nat ?b" using bitlen_bounds [OF q] by simp_all
  have P: "pow2 (?a - 1) \<le> of_int p" "of_int p < pow2 ?a"
  proof -
    have "rat_of_int (2 ^ nat (?a - 1)) \<le> of_int p" using pb(1) by (simp only: of_int_le_iff)
    then show "pow2 (?a - 1) \<le> of_int p" using a1 by (simp add: pow2_def)
    have "rat_of_int p < of_int (2 ^ nat ?a)" using pb(2) by (simp only: of_int_less_iff)
    then show "of_int p < pow2 ?a" using a1 by (simp add: pow2_def)
  qed
  have Q: "pow2 (?b - 1) \<le> of_int q" "of_int q < pow2 ?b"
  proof -
    have "rat_of_int (2 ^ nat (?b - 1)) \<le> of_int q" using qb(1) by (simp only: of_int_le_iff)
    then show "pow2 (?b - 1) \<le> of_int q" using b1 by (simp add: pow2_def)
    have "rat_of_int q < of_int (2 ^ nat ?b)" using qb(2) by (simp only: of_int_less_iff)
    then show "of_int q < pow2 ?b" using b1 by (simp add: pow2_def)
  qed
  let ?k = "?a - ?b"
  have qpos: "0 < rat_of_int q" using q by simp
  have up: "\<bar>x\<bar> < pow2 (?k + 1)"
  proof -
    have "rat_of_int p < pow2 ?a" by (rule P(2))
    also have "pow2 ?a = pow2 (?k + 1) * pow2 (?b - 1)"
      by (simp add: pow2_add [symmetric])
    also have "\<dots> \<le> pow2 (?k + 1) * of_int q"
      using Q(1) pow2_pos [of "?k + 1"] by (simp add: mult_left_mono)
    finally show ?thesis using qpos by (simp add: ax pos_divide_less_eq)
  qed
  have lo: "pow2 (?k - 1) \<le> \<bar>x\<bar>"
  proof -
    have "pow2 (?k - 1) * of_int q \<le> pow2 (?k - 1) * pow2 ?b"
      using Q(2) pow2_pos [of "?k - 1"] by (simp add: mult_left_mono)
    also have "\<dots> = pow2 (?a - 1)" by (simp add: pow2_add [symmetric])
    also have "\<dots> \<le> of_int p" by (rule P(1))
    finally show ?thesis using qpos by (simp add: ax pos_le_divide_eq)
  qed
  show ?thesis
  proof (cases "pow2 ?k \<le> \<bar>x\<bar>")
    case True
    then have "expo x = ?k" by (simp add: expo_def pq Let_def)
    then show ?thesis using True up by simp
  next
    case False
    then have "expo x = ?k - 1" by (simp add: expo_def pq Let_def)
    then show ?thesis using False lo by simp
  qed
qed

lemma expo_unique:
  assumes "pow2 e \<le> \<bar>x\<bar>" and "\<bar>x\<bar> < pow2 (e + 1)"
  shows "expo x = e"
proof -
  have nz: "x \<noteq> 0" using assms(1) pow2_pos [of e] by auto
  note b = expo_bounds [OF nz]
  have "pow2 e < pow2 (expo x + 1)" using assms(1) b by linarith
  then have "e < expo x + 1" by (simp only: pow2_less_iff)
  moreover have "pow2 (expo x) < pow2 (e + 1)" using assms(2) b by linarith
  then have "expo x < e + 1" by (simp only: pow2_less_iff)
  ultimately show ?thesis by simp
qed

lemma expo_mono:
  assumes "0 < x" and "x \<le> y"
  shows "expo x \<le> expo y"
proof -
  have nx: "x \<noteq> 0" and ny: "y \<noteq> 0" using assms by auto
  have "pow2 (expo x) \<le> \<bar>x\<bar>" using expo_bounds [OF nx] by simp
  also have "\<bar>x\<bar> \<le> \<bar>y\<bar>" using assms by simp
  also have "\<bar>y\<bar> < pow2 (expo y + 1)" using expo_bounds [OF ny] by simp
  finally have "expo x < expo y + 1" by (simp only: pow2_less_iff)
  then show ?thesis by simp
qed


lemma round64_zero: "round64 0 = 0"
  by (simp add: round64_def)

lemma round64_unfold:
  "x \<noteq> 0 \<Longrightarrow>
   round64 x = of_int (rne (x / pow2 (max (expo x) (- 1022) - 52)))
                 * pow2 (max (expo x) (- 1022) - 52)"
  by (simp add: round64_def Let_def)

lemma round64_nonneg: "0 \<le> x \<Longrightarrow> 0 \<le> round64 x"
proof (cases "x = 0")
  case True
  then show ?thesis by (simp add: round64_zero)
next
  case False
  assume "0 \<le> x"
  let ?u = "pow2 (max (expo x) (- 1022) - 52)"
  have "0 \<le> x / ?u" using \<open>0 \<le> x\<close> pow2_pos [of "max (expo x) (- 1022) - 52"] by simp
  then have "rne 0 \<le> rne (x / ?u)" by (rule rne_mono)
  then have "0 \<le> rne (x / ?u)" using rne_of_int [of 0] by simp
  then show ?thesis
    using False pow2_pos [of "max (expo x) (- 1022) - 52"] by (simp add: round64_unfold)
qed

lemma round64_error: "\<bar>round64 x - x\<bar> \<le> \<bar>x\<bar> / 2 ^ 53 + pow2 (- 1075)"
proof (cases "x = 0")
  case True
  then show ?thesis using pow2_pos [of "- 1075"] by (simp add: round64_zero)
next
  case False
  let ?E = "max (expo x) (- 1022)"
  let ?u = "pow2 (?E - 52)"
  have u: "0 < ?u" by (rule pow2_pos)
  have "round64 x - x = (of_int (rne (x / ?u)) - x / ?u) * ?u"
    using False u by (simp add: round64_unfold algebra_simps)
  then have "\<bar>round64 x - x\<bar> = \<bar>of_int (rne (x / ?u)) - x / ?u\<bar> * ?u"
    using u by (simp add: abs_mult)
  also have "\<dots> \<le> (1 / 2) * ?u"
    using rne_error [of "x / ?u"] u by (intro mult_right_mono) simp_all
  finally have half: "\<bar>round64 x - x\<bar> \<le> ?u / 2" by simp
  show ?thesis
  proof (cases "- 1022 \<le> expo x")
    case True
    then have E: "?E = expo x" by simp
    have "pow2 (expo x) = ?u * pow2 52" unfolding E by (simp add: pow2_add [symmetric])
    then have "?u * 2 ^ 52 \<le> \<bar>x\<bar>"
      using expo_bounds [OF False] pow2_nat [of 52] by simp
    then have "?u / 2 \<le> \<bar>x\<bar> / 2 ^ 53" by (simp add: field_simps)
    then show ?thesis using half pow2_pos [of "- 1075"] by linarith
  next
    case False
    then have E: "?E = - 1022" by simp
    have "pow2 (- 1074) = pow2 (- 1075) * pow2 1" by (simp add: pow2_add [symmetric])
    then have "?u / 2 = pow2 (- 1075)" unfolding E by (simp add: pow2_def)
    moreover have "0 \<le> \<bar>x\<bar> / 2 ^ 53" by simp
    ultimately show ?thesis using half by linarith
  qed
qed

lemma round64_upper:
  assumes "0 < x"
  shows "round64 x \<le> pow2 (max (expo x) (- 1022) + 1)"
proof -
  let ?E = "max (expo x) (- 1022)"
  let ?u = "pow2 (?E - 52)"
  have u: "0 < ?u" by (rule pow2_pos)
  have nz: "x \<noteq> 0" using assms by simp
  have top: "pow2 (?E + 1) = 2 ^ 53 * ?u"
  proof -
    have "pow2 (?E + 1) = pow2 (53 + (?E - 52))" by (rule arg_cong [where f = pow2]) simp
    also have "\<dots> = pow2 53 * pow2 (?E - 52)" by (rule pow2_add)
    finally show ?thesis using pow2_nat [of 53] by simp
  qed
  have "x < pow2 (expo x + 1)" using expo_bounds [OF nz] assms by simp
  also have "\<dots> \<le> pow2 (?E + 1)" by (rule pow2_mono) simp
  finally have "x / ?u \<le> 2 ^ 53" using u top by (simp add: pos_divide_le_eq)
  then have "x / ?u \<le> of_int (2 ^ 53)" by simp
  then have "rne (x / ?u) \<le> rne (of_int (2 ^ 53))" by (rule rne_mono)
  then have "rne (x / ?u) \<le> 2 ^ 53" by (simp only: rne_of_int)
  then have "rat_of_int (rne (x / ?u)) \<le> 2 ^ 53"
    by (metis of_int_le_iff of_int_numeral of_int_power)
  then have "of_int (rne (x / ?u)) * ?u \<le> 2 ^ 53 * ?u"
    using u by (intro mult_right_mono) simp_all
  then show ?thesis unfolding round64_unfold [OF nz] top .
qed

lemma round64_lower:
  assumes "0 < x" and "- 1022 \<le> expo x"
  shows "pow2 (expo x) \<le> round64 x"
proof -
  let ?u = "pow2 (expo x - 52)"
  have E: "max (expo x) (- 1022) = expo x" using assms(2) by simp
  have u: "0 < ?u" by (rule pow2_pos)
  have nz: "x \<noteq> 0" using assms by simp
  have bot: "pow2 (expo x) = 2 ^ 52 * ?u"
  proof -
    have "pow2 (expo x) = pow2 52 * pow2 (expo x - 52)" by (simp add: pow2_add [symmetric])
    then show ?thesis using pow2_nat [of 52] by simp
  qed
  have "pow2 (expo x) \<le> x" using expo_bounds [OF nz] assms by simp
  then have "2 ^ 52 \<le> x / ?u" using u bot by (simp add: pos_le_divide_eq)
  then have "of_int (2 ^ 52) \<le> x / ?u" by simp
  then have "rne (of_int (2 ^ 52)) \<le> rne (x / ?u)" by (rule rne_mono)
  then have "2 ^ 52 \<le> rne (x / ?u)" by (simp only: rne_of_int)
  then have "2 ^ 52 \<le> rat_of_int (rne (x / ?u))"
    by (metis of_int_le_iff of_int_numeral of_int_power)
  then have "2 ^ 52 * ?u \<le> of_int (rne (x / ?u)) * ?u"
    using u by (intro mult_right_mono) simp_all
  then show ?thesis using nz bot by (simp add: round64_unfold E)
qed

lemma round64_mono:
  assumes "0 \<le> x" and "x \<le> y"
  shows "round64 x \<le> round64 y"
proof (cases "x = 0")
  case True
  then show ?thesis using round64_nonneg [of y] assms by (simp add: round64_zero)
next
  case False
  then have xp: "0 < x" using assms by simp
  then have yp: "0 < y" using assms by simp
  let ?Ex = "max (expo x) (- 1022)" and ?Ey = "max (expo y) (- 1022)"
  have ee: "expo x \<le> expo y" using xp assms(2) by (rule expo_mono)
  show ?thesis
  proof (cases "?Ex = ?Ey")
    case True
    let ?u = "pow2 (?Ey - 52)"
    have u: "0 < ?u" by (rule pow2_pos)
    have "x / ?u \<le> y / ?u" using assms(2) u by (simp add: divide_right_mono)
    then have "rne (x / ?u) \<le> rne (y / ?u)" by (rule rne_mono)
    then have "rat_of_int (rne (x / ?u)) * ?u \<le> of_int (rne (y / ?u)) * ?u"
      using u by (intro mult_right_mono) simp_all
    then show ?thesis using xp yp True by (simp add: round64_unfold)
  next
    case False
    then have lt: "?Ex < ?Ey" using ee by linarith
    then have ey: "- 1022 \<le> expo y" "?Ey = expo y" by linarith+
    have "round64 x \<le> pow2 (?Ex + 1)" using xp by (rule round64_upper)
    also have "\<dots> \<le> pow2 (expo y)"
    proof (rule pow2_mono)
      show "?Ex + 1 \<le> expo y" using lt ey by linarith
    qed
    also have "\<dots> \<le> round64 y" using yp ey(1) by (rule round64_lower)
    finally show ?thesis .
  qed
qed

lemma round64_consts:
  "round64 1 = 1" "round64 30 = 30" "round64 40 = 40" "round64 70 = 70" "round64 100 = 100"
  by code_simp+


lemma round64_near:
  assumes "0 \<le> x" and "x \<le> c"
  shows "x - (c / 2 ^ 53 + 1 / 2 ^ 60) \<le> round64 x"
    and "round64 x \<le> x + (c / 2 ^ 53 + 1 / 2 ^ 60)"
proof -
  have "pow2 (- 1075) \<le> pow2 (- 60)" by (rule pow2_mono) simp
  then have eta: "pow2 (- 1075) \<le> 1 / 2 ^ 60" by (simp add: pow2_def)
  have "\<bar>x\<bar> / 2 ^ 53 \<le> c / 2 ^ 53" using assms by (simp add: divide_right_mono)
  then have "\<bar>round64 x - x\<bar> \<le> c / 2 ^ 53 + 1 / 2 ^ 60"
    using round64_error [of x] eta by linarith
  then show "x - (c / 2 ^ 53 + 1 / 2 ^ 60) \<le> round64 x"
    and "round64 x \<le> x + (c / 2 ^ 53 + 1 / 2 ^ 60)"
    by (simp_all add: abs_le_iff)
qed

lemma min1_round:
  assumes "0 \<le> q"
  shows "0 \<le> min 1 (round64 q)" and "min 1 (round64 q) \<le> 1"
    and "min 1 q - (1 / 2 ^ 53 + 1 / 2 ^ 60) \<le> min 1 (round64 q)"
    and "min 1 (round64 q) \<le> min 1 q + (1 / 2 ^ 53 + 1 / 2 ^ 60)"
proof -
  show "0 \<le> min 1 (round64 q)" using round64_nonneg [OF assms] by simp
  show "min 1 (round64 q) \<le> 1" by simp
  have both: "min 1 q - (1 / 2 ^ 53 + 1 / 2 ^ 60) \<le> min 1 (round64 q)
      \<and> min 1 (round64 q) \<le> min 1 q + (1 / 2 ^ 53 + 1 / 2 ^ 60)"
  proof (cases "1 \<le> q")
    case True
    have "round64 1 \<le> round64 q" using True by (intro round64_mono) simp_all
    then have "1 \<le> round64 q" by (simp add: round64_consts)
    then show ?thesis using True by (simp add: min_def)
  next
    case False
    then have q1: "q \<le> 1" by simp
    have "round64 q \<le> round64 1" using assms q1 by (rule round64_mono)
    then have r1: "round64 q \<le> 1" by (simp add: round64_consts)
    have "q - (1 / 2 ^ 53 + 1 / 2 ^ 60) \<le> round64 q"
      "round64 q \<le> q + (1 / 2 ^ 53 + 1 / 2 ^ 60)"
      using round64_near [OF assms q1] by simp_all
    then show ?thesis using q1 r1 by (simp add: min_def)
  qed
  show "min 1 q - (1 / 2 ^ 53 + 1 / 2 ^ 60) \<le> min 1 (round64 q)" using both by simp
  show "min 1 (round64 q) \<le> min 1 q + (1 / 2 ^ 53 + 1 / 2 ^ 60)" using both by simp
qed

lemma round64_within:
  assumes "0 \<le> x" and "x \<le> c" and "round64 c = c"
  shows "0 \<le> round64 x" and "round64 x \<le> c"
proof -
  show "0 \<le> round64 x" using assms(1) by (rule round64_nonneg)
  have "round64 x \<le> round64 c" using assms(1,2) by (rule round64_mono)
  then show "round64 x \<le> c" by (simp only: assms(3))
qed


lemma score_sum_close:
  fixes d :: rat and v :: int and s :: nat
  assumes d: "0 \<le> d" and v: "0 \<le> v"
  defines "X \<equiv> min 1 (d / 365) * 30 + min 1 (of_int v / 100000000) * 40
                 + min 1 (of_nat s / 100) * 30"
  shows "\<exists>S. calculateScore d v s = \<lfloor>S\<rfloor> \<and> 0 \<le> S \<and> S \<le> 100
            \<and> X - 1 / 2 ^ 44 \<le> S \<and> S \<le> X + 1 / 2 ^ 44"
proof -
  define D :: rat where "D = 1 / 2 ^ 53"
  define H :: rat where "H = 1 / 2 ^ 60"
  have near: "x - (c * D + H) \<le> round64 x \<and> round64 x \<le> x + (c * D + H)"
    if "0 \<le> x" "x \<le> c" for x c
    using round64_near [OF that] by (simp add: D_def H_def)
  have capped: "0 \<le> min 1 (round64 q) \<and> min 1 (round64 q) \<le> 1
      \<and> min 1 q - (D + H) \<le> min 1 (round64 q) \<and> min 1 (round64 q) \<le> min 1 q + (D + H)"
    if "0 \<le> q" for q
    using min1_round [OF that] by (simp add: D_def H_def)
  define ma where "ma = min 1 (d / 365)"
  define mb where "mb = min 1 (rat_of_int v / 100000000)"
  define mc where "mc = min 1 (rat_of_nat s / 100)"
  define B where "B = round64 (rat_of_int v / 100000000)"
  define mB where "mB = min 1 B"
  define m1 where "m1 = min 1 (round64 (d / 365))"
  define m2 where "m2 = min 1 (round64 (B / 1))"
  define m3 where "m3 = min 1 (round64 (rat_of_nat s / 100))"
  define P1 where "P1 = round64 (m1 * 30)"
  define P2 where "P2 = round64 (m2 * 40)"
  define P3 where "P3 = round64 (m3 * 30)"
  define S1 where "S1 = round64 (0 + P1)"
  define S2 where "S2 = round64 (S1 + P2)"
  define S3 where "S3 = round64 (S2 + P3)"
  have a0: "0 \<le> d / 365" using d by simp
  have b0: "0 \<le> rat_of_int v / 100000000" using v by simp
  have c0: "0 \<le> rat_of_nat s / 100" by simp
  have B0: "0 \<le> B" unfolding B_def using b0 by (rule round64_nonneg)
  have cm1: "0 \<le> m1" "m1 \<le> 1" "ma - (D + H) \<le> m1" "m1 \<le> ma + (D + H)"
    using capped [OF a0] by (simp_all add: m1_def ma_def)
  have cmB: "mb - (D + H) \<le> mB" "mB \<le> mb + (D + H)"
    using capped [OF b0] by (simp_all add: mB_def mb_def B_def)
  have cm2: "0 \<le> m2" "m2 \<le> 1" "mB - (D + H) \<le> m2" "m2 \<le> mB + (D + H)"
    using capped [OF B0] by (simp_all add: m2_def mB_def)
  have cm3: "0 \<le> m3" "m3 \<le> 1" "mc - (D + H) \<le> m3" "m3 \<le> mc + (D + H)"
    using capped [OF c0] by (simp_all add: m3_def mc_def)
  have t1: "0 \<le> m1 * 30" "m1 * 30 \<le> 30" using cm1(1,2) by simp_all
  have t2: "0 \<le> m2 * 40" "m2 * 40 \<le> 40" using cm2(1,2) by simp_all
  have t3: "0 \<le> m3 * 30" "m3 * 30 \<le> 30" using cm3(1,2) by simp_all
  have P1r: "0 \<le> P1" "P1 \<le> 30"
    unfolding P1_def using round64_within [OF t1 round64_consts(2)] by simp_all
  have P2r: "0 \<le> P2" "P2 \<le> 40"
    unfolding P2_def using round64_within [OF t2 round64_consts(3)] by simp_all
  have P3r: "0 \<le> P3" "P3 \<le> 30"
    unfolding P3_def using round64_within [OF t3 round64_consts(2)] by simp_all
  have P1n: "m1 * 30 - (30 * D + H) \<le> P1" "P1 \<le> m1 * 30 + (30 * D + H)"
    unfolding P1_def using near [OF t1] by simp_all
  have P2n: "m2 * 40 - (40 * D + H) \<le> P2" "P2 \<le> m2 * 40 + (40 * D + H)"
    unfolding P2_def using near [OF t2] by simp_all
  have P3n: "m3 * 30 - (30 * D + H) \<le> P3" "P3 \<le> m3 * 30 + (30 * D + H)"
    unfolding P3_def using near [OF t3] by simp_all
  have u1: "0 \<le> 0 + P1" "0 + P1 \<le> 30" using P1r by simp_all
  have S1r: "0 \<le> S1" "S1 \<le> 30"
    unfolding S1_def using round64_within [OF u1 round64_consts(2)] by simp_all
  have S1n: "P1 - (30 * D + H) \<le> S1" "S1 \<le> P1 + (30 * D + H)"
    unfolding S1_def using near [OF u1] by simp_all
  have u2: "0 \<le> S1 + P2" "S1 + P2 \<le> 70" using S1r P2r by linarith+
  have S2r: "0 \<le> S2" "S2 \<le> 70"
    unfolding S2_def using round64_within [OF u2 round64_consts(4)] by simp_all
  have S2n: "S1 + P2 - (70 * D + H) \<le> S2" "S2 \<le> S1 + P2 + (70 * D + H)"
    unfolding S2_def using near [OF u2] by simp_all
  have u3: "0 \<le> S2 + P3" "S2 + P3 \<le> 100" using S2r P3r by linarith+
  have S3r: "0 \<le> S3" "S3 \<le> 100"
    unfolding S3_def using round64_within [OF u3 round64_consts(5)] by simp_all
  have S3n: "S2 + P3 - (100 * D + H) \<le> S3" "S3 \<le> S2 + P3 + (100 * D + H)"
    unfolding S3_def using near [OF u3] by simp_all
  have X: "X = ma * 30 + mb * 40 + mc * 30" by (simp add: X_def ma_def mb_def mc_def)
  have lo: "X - (440 * D + 146 * H) \<le> S3"
    unfolding X using cm1(3) cmB(1) cm2(3) cm3(3) P1n(1) P2n(1) P3n(1) S1n(1) S2n(1) S3n(1)
    by linarith
  have hi: "S3 \<le> X + (440 * D + 146 * H)"
    unfolding X using cm1(4) cmB(2) cm2(4) cm3(4) P1n(2) P2n(2) P3n(2) S1n(2) S2n(2) S3n(2)
    by linarith
  have small: "440 * D + 146 * H \<le> 1 / 2 ^ 44" by (simp add: D_def H_def)
  have val: "calculateScore d v s = \<lfloor>S3\<rfloor>"
    by (simp add: calculateScore_def Let_def S3_def S2_def S1_def P1_def P2_def P3_def
        m1_def m2_def m3_def B_def)
  have "X - 1 / 2 ^ 44 \<le> S3" using lo small by linarith
  moreover have "S3 \<le> X + 1 / 2 ^ 44" using hi small by linarith
  ultimately show ?thesis using val S3r by blast
qed


lemma score_close:
  assumes "0 \<le> d" and "0 \<le> v"
  shows "\<exists>S. calculateScore d v s = \<lfloor>S\<rfloor> \<and> 0 \<le> S \<and> S \<le> 100
            \<and> scoreFormula d v s - 1 / 2 ^ 44 \<le> S \<and> S \<le> scoreFormula d v s + 1 / 2 ^ 44"
  using score_sum_close [OF assms, of s] by (simp add: scoreFormula_def)

text \<open>
  Claim C4, as the code has it. For \<open>daysActive \<ge> 0\<close>, \<open>volumeSats \<ge> 0\<close> and a trade
  count (a natural number), the trust score is the floor, taken once, of the sum of the
  three capped linear contributions as computed in double arithmetic. It lies between 0
  and 100. The computed sum is within \<open>2^-44\<close> of the exact value of the formula
  (\<open>scoreFormula\<close>), so the score is the floor of the exact value or differs from it
  by one, and it is that floor whenever the exact value is at least \<open>2^-44\<close> away
  from the integers. The score of (365 days, 1e8 sats, 100 trades) is 100 and the score
  of (0, 0, 0) is 0.
\<close>

theorem calculateScore_spec:
  "(0 \<le> d \<and> 0 \<le> v \<longrightarrow>
      0 \<le> calculateScore d v s \<and> calculateScore d v s \<le> 100
    \<and> \<lfloor>scoreFormula d v s - 1 / 2 ^ 44\<rfloor> \<le> calculateScore d v s
    \<and> calculateScore d v s \<le> \<lfloor>scoreFormula d v s + 1 / 2 ^ 44\<rfloor>
    \<and> \<lfloor>scoreFormula d v s\<rfloor> - 1 \<le> calculateScore d v s
    \<and> calculateScore d v s \<le> \<lfloor>scoreFormula d v s\<rfloor> + 1
    \<and> (of_int \<lfloor>scoreFormula d v s\<rfloor> + 1 / 2 ^ 44 \<le> scoreFormula d v s
         \<and> scoreFormula d v s < of_int \<lfloor>scoreFormula d v s\<rfloor> + 1 - 1 / 2 ^ 44
       \<longrightarrow> calculateScore d v s = \<lfloor>scoreFormula d v s\<rfloor>))
   \<and> calculateScore 365 100000000 100 = 100
   \<and> calculateScore 0 0 0 = 0"
proof -
  have main: "0 \<le> calculateScore d v s \<and> calculateScore d v s \<le> 100
    \<and> \<lfloor>scoreFormula d v s - 1 / 2 ^ 44\<rfloor> \<le> calculateScore d v s
    \<and> calculateScore d v s \<le> \<lfloor>scoreFormula d v s + 1 / 2 ^ 44\<rfloor>
    \<and> \<lfloor>scoreFormula d v s\<rfloor> - 1 \<le> calculateScore d v s
    \<and> calculateScore d v s \<le> \<lfloor>scoreFormula d v s\<rfloor> + 1
    \<and> (of_int \<lfloor>scoreFormula d v s\<rfloor> + 1 / 2 ^ 44 \<le> scoreFormula d v s
         \<and> scoreFormula d v s < of_int \<lfloor>scoreFormula d v s\<rfloor> + 1 - 1 / 2 ^ 44
       \<longrightarrow> calculateScore d v s = \<lfloor>scoreFormula d v s\<rfloor>)"
    if h: "0 \<le> d" "0 \<le> v"
  proof -
    define X where "X = scoreFormula d v s"
    obtain S where S: "calculateScore d v s = \<lfloor>S\<rfloor>" "0 \<le> S" "S \<le> 100"
      "X - 1 / 2 ^ 44 \<le> S" "S \<le> X + 1 / 2 ^ 44"
      using score_close [OF h, of s] unfolding X_def by blast
    have eps: "(0 :: rat) \<le> 1 / 2 ^ 44" "1 / 2 ^ 44 \<le> (1 :: rat)" by simp_all
    have b0: "0 \<le> \<lfloor>S\<rfloor>" using S(2) by simp
    have b1: "\<lfloor>S\<rfloor> \<le> 100" using S(3) by (simp add: floor_le_iff)
    have f1: "\<lfloor>X - 1 / 2 ^ 44\<rfloor> \<le> \<lfloor>S\<rfloor>" using S(4) by (rule floor_mono)
    have f2: "\<lfloor>S\<rfloor> \<le> \<lfloor>X + 1 / 2 ^ 44\<rfloor>" using S(5) by (rule floor_mono)
    have "X - 1 \<le> X - 1 / 2 ^ 44" using eps by simp
    then have "\<lfloor>X - 1\<rfloor> \<le> \<lfloor>X - 1 / 2 ^ 44\<rfloor>" by (rule floor_mono)
    then have g1: "\<lfloor>X\<rfloor> - 1 \<le> \<lfloor>S\<rfloor>" using f1 by simp
    have "X + 1 / 2 ^ 44 \<le> X + 1" using eps by simp
    then have "\<lfloor>X + 1 / 2 ^ 44\<rfloor> \<le> \<lfloor>X + 1\<rfloor>" by (rule floor_mono)
    then have g2: "\<lfloor>S\<rfloor> \<le> \<lfloor>X\<rfloor> + 1" using f2 by simp
    have eq: "\<lfloor>S\<rfloor> = \<lfloor>X\<rfloor>"
      if "of_int \<lfloor>X\<rfloor> + 1 / 2 ^ 44 \<le> X \<and> X < of_int \<lfloor>X\<rfloor> + 1 - 1 / 2 ^ 44"
    proof (rule floor_unique)
      show "of_int \<lfloor>X\<rfloor> \<le> S" using that S(4) by linarith
      show "S < of_int \<lfloor>X\<rfloor> + 1" using that S(5) by linarith
    qed
    show ?thesis unfolding X_def [symmetric] S(1) using b0 b1 f1 f2 g1 g2 eq by blast
  qed
  have top: "calculateScore 365 100000000 100 = 100" by code_simp
  have bot: "calculateScore 0 0 0 = 0" by code_simp
  show ?thesis using main top bot by blast
qed

text \<open>
  No time, 250000 sats, 3 trades: the exact value of the formula is \<open>0.1 + 0.9 = 1\<close>,
  the doubles add up to just below 1, and the score is 0.
\<close>

theorem calculateScore_exact_formula_counterexample:
  "calculateScore 0 250000 3 = 0 \<and> \<lfloor>scoreFormula 0 250000 3\<rfloor> = 1"
  by code_simp

theorem calculateScore_spec_witness:
  "calculateScore 400 47750000 3 = 49 \<and> \<lfloor>scoreFormula 400 47750000 3\<rfloor> = 50
   \<and> calculateScore 100 50000000 57 = 45 \<and> \<lfloor>scoreFormula 100 50000000 57\<rfloor> = 45"
proof -
  have a: "calculateScore 400 47750000 3 = 49" by code_simp
  have fa: "scoreFormula 400 47750000 3 = 50" by (simp add: scoreFormula_def)
  have fb: "scoreFormula 100 50000000 57 = 33083 / 730" by (simp add: scoreFormula_def)
  have flb: "\<lfloor>(33083 :: rat) / 730\<rfloor> = 45" by (simp add: floor_eq_iff)
  have "\<lfloor>scoreFormula 400 47750000 3\<rfloor> - 1 \<le> calculateScore 400 47750000 3"
    using calculateScore_spec [of 400 47750000 3] by simp
  then have first: "calculateScore 400 47750000 3 = 49 \<and> \<lfloor>scoreFormula 400 47750000 3\<rfloor> = 50"
    using a fa by simp
  have "calculateScore 100 50000000 57 = \<lfloor>scoreFormula 100 50000000 57\<rfloor>"
    using calculateScore_spec [of 100 50000000 57] unfolding fb flb by simp
  then have second: "calculateScore 100 50000000 57 = 45 \<and> \<lfloor>scoreFormula 100 50000000 57\<rfloor> = 45"
    unfolding fb flb by simp
  show ?thesis using first second by blast
qed

text \<open>The floor is taken once: here each term alone has floor 0 and the score is 1.\<close>

lemma floor_once_example:
  "calculateScore 6 1000000 1 = 1
   \<and> \<lfloor>round64 (min 1 (round64 (6 / 365)) * 30)\<rfloor>
       + \<lfloor>round64 (min 1 (round64 (round64 (1000000 / 100000000) / 1)) * 40)\<rfloor>
       + \<lfloor>round64 (min 1 (round64 (1 / 100)) * 30)\<rfloor> = 0"
  by code_simp

lemma foldl_add_sum_list: "foldl (\<lambda>acc val. acc + val) a xs = a + sum_list (xs :: int list)"
  by (induction xs arbitrary: a) auto

lemma sort_nth0_Min: "xs \<noteq> [] \<Longrightarrow> sort xs ! 0 = Min (set (xs :: int list))"
proof -
  assume ne: "xs \<noteq> []"
  then have "sort xs \<noteq> []" by (metis length_sort length_0_conv)
  then obtain y ys where s: "sort xs = y # ys" by (cases "sort xs") auto
  have "sorted (y # ys)" using sorted_sort [where xs = xs] s by simp
  then have "\<forall>z \<in> set (y # ys). y \<le> z" by auto
  moreover have "set (y # ys) = set xs" using set_sort [where xs = xs and f = "\<lambda>x. x"] s by simp
  ultimately have "Min (set xs) = y"
    by (intro Min_eqI) auto
  then show ?thesis using s by simp
qed

lemma sort_last_Max: "xs \<noteq> [] \<Longrightarrow> sort xs ! (length (sort xs) - 1) = Max (set (xs :: int list))"
proof -
  assume ne: "xs \<noteq> []"
  then have sne: "sort xs \<noteq> []" by (metis length_sort length_0_conv)
  have srt: "sorted (sort xs)" by simp
  have "\<forall>z \<in> set (sort xs). z \<le> last (sort xs)"
  proof
    fix z assume "z \<in> set (sort xs)"
    then obtain i where i: "i < length (sort xs)" "sort xs ! i = z"
      unfolding in_set_conv_nth by blast
    have "sort xs ! i \<le> sort xs ! (length (sort xs) - 1)"
      using srt i(1) by (intro sorted_nth_mono) auto
    then show "z \<le> last (sort xs)" using i sne by (simp add: last_conv_nth)
  qed
  moreover have "last (sort xs) \<in> set xs" using last_in_set [OF sne] by simp
  ultimately have "Max (set xs) = last (sort xs)"
    by (intro Max_eqI) auto
  then show ?thesis using sne by (simp add: last_conv_nth)
qed

text \<open>
  Claim C5. For a non-empty list of amounts, computeTradeStats returns the first and
  the last element of the ascending sort (the minimum and the maximum of the amounts),
  the unrounded quotient of the sum by the count as the mean, and as the median the
  middle element of the sort for an odd count and the floor of the average of the two
  middle elements for an even count; for the empty list all four are 0. For
  \<open>[10, 10, 10, 1000]\<close> the mean is 257.5 and the median is 10.
\<close>

theorem computeTradeStats_spec:
  "(amounts \<noteq> [] \<longrightarrow>
      min_s (computeTradeStats amounts) = sort amounts ! 0
    \<and> min_s (computeTradeStats amounts) = Min (set amounts)
    \<and> max_s (computeTradeStats amounts) = sort amounts ! (length amounts - 1)
    \<and> max_s (computeTradeStats amounts) = Max (set amounts)
    \<and> mean_s (computeTradeStats amounts) = of_int (sum_list amounts) / of_nat (length amounts)
    \<and> median_s (computeTradeStats amounts) =
        (if even (length amounts)
         then (sort amounts ! (length amounts div 2 - 1) + sort amounts ! (length amounts div 2)) div 2
         else sort amounts ! (length amounts div 2)))
   \<and> computeTradeStats [] = \<lparr>min_s = 0, max_s = 0, mean_s = 0, median_s = 0\<rparr>
   \<and> mean_s (computeTradeStats [10, 10, 10, 1000]) = 257.5
   \<and> median_s (computeTradeStats [10, 10, 10, 1000]) = 10"
proof -
  have ne: "amounts \<noteq> [] \<Longrightarrow>
      min_s (computeTradeStats amounts) = sort amounts ! 0
    \<and> min_s (computeTradeStats amounts) = Min (set amounts)
    \<and> max_s (computeTradeStats amounts) = sort amounts ! (length amounts - 1)
    \<and> max_s (computeTradeStats amounts) = Max (set amounts)
    \<and> mean_s (computeTradeStats amounts) = of_int (sum_list amounts) / of_nat (length amounts)
    \<and> median_s (computeTradeStats amounts) =
        (if even (length amounts)
         then (sort amounts ! (length amounts div 2 - 1) + sort amounts ! (length amounts div 2)) div 2
         else sort amounts ! (length amounts div 2))"
    using sort_nth0_Min [of amounts] sort_last_Max [of amounts]
    by (simp add: computeTradeStats_def Let_def foldl_add_sum_list even_iff_mod_2_eq_zero)
  have emp: "computeTradeStats [] = \<lparr>min_s = 0, max_s = 0, mean_s = 0, median_s = 0\<rparr>"
    by (simp add: computeTradeStats_def)
  have ex: "mean_s (computeTradeStats [10, 10, 10, 1000]) = 257.5
     \<and> median_s (computeTradeStats [10, 10, 10, 1000]) = 10"
    by (simp add: computeTradeStats_def Let_def)
  show ?thesis using ne emp ex by blast
qed

theorem computeTradeStats_spec_witness:
  "min_s (computeTradeStats [700, 3, 21]) = 3 \<and> max_s (computeTradeStats [700, 3, 21]) = 700
   \<and> mean_s (computeTradeStats [700, 3, 21]) = 724 / 3
   \<and> median_s (computeTradeStats [700, 3, 21]) = 21
   \<and> median_s (computeTradeStats [5000, 15000]) = 10000"
  using computeTradeStats_spec [of "[700, 3, 21]"] computeTradeStats_spec [of "[5000, 15000]"]
  by simp

section \<open>Deduplication\<close>

lemma map_of_mapSet: "map_of (mapSet m k v) = (map_of m)(k \<mapsto> v)"
  by (induction m k v rule: mapSet.induct) auto

lemma mapSet_fresh: "k \<notin> fst ` set m \<Longrightarrow> mapSet m k v = m @ [(k, v)]"
  by (induction m k v rule: mapSet.induct) auto

lemma keys_mapSet: "fst ` set (mapSet m k v) = insert k (fst ` set m)"
  by (induction m k v rule: mapSet.induct) auto

lemma map_fst_mapSet_present: "k \<in> fst ` set m \<Longrightarrow> map fst (mapSet m k v) = map fst m"
  by (induction m k v rule: mapSet.induct) auto

lemma distinct_mapSet: "distinct (map fst m) \<Longrightarrow> distinct (map fst (mapSet m k v))"
proof (cases "k \<in> fst ` set m")
  case True
  assume "distinct (map fst m)"
  then show ?thesis using True by (simp add: map_fst_mapSet_present)
next
  case False
  assume "distinct (map fst m)"
  then show ?thesis using False by (simp add: mapSet_fresh)
qed

lemma set_mapSet_subset: "set (mapSet m k v) \<subseteq> insert (k, v) (set m)"
  by (induction m k v rule: mapSet.induct) auto

lemma orderIdOf_Some: "orderIdOf e = Some k \<longleftrightarrow> getTagValue e ''d'' = Some k \<and> k \<noteq> []"
  by (auto simp: orderIdOf_def split: option.splits)

lemma dedupStep_no_id: "orderIdOf e = None \<Longrightarrow> dedupStep m e = m"
  by (auto simp: orderIdOf_def dedupStep_def split: option.splits if_splits)

lemma dedupStep_id:
  "orderIdOf e = Some k \<Longrightarrow>
   dedupStep m e =
     (case mapGet m k of
        None \<Rightarrow> mapSet m k e
      | Some x \<Rightarrow> if created_at e > created_at x then mapSet m k e else m)"
  by (auto simp: orderIdOf_def dedupStep_def split: option.splits if_splits)

lemma dedupOrders_snoc: "dedupOrders (evs @ [e]) = dedupStep (dedupOrders evs) e"
  by (simp add: dedupOrders_def)

lemma mapGet_dedupStep_other:
  "orderIdOf e \<noteq> Some k \<Longrightarrow> mapGet (dedupStep m e) k = mapGet m k"
proof (cases "orderIdOf e")
  case None
  then show ?thesis by (simp add: dedupStep_no_id)
next
  case (Some k')
  assume "orderIdOf e \<noteq> Some k"
  then have "k' \<noteq> k" using Some by simp
  then show ?thesis using Some
    by (simp add: dedupStep_id mapGet_def map_of_mapSet split: option.splits)
qed

lemma mapGet_dedupStep_same:
  "orderIdOf e = Some k \<Longrightarrow>
   mapGet (dedupStep m e) k =
     (case mapGet m k of
        None \<Rightarrow> Some e
      | Some x \<Rightarrow> if created_at e > created_at x then Some e else Some x)"
  by (simp add: dedupStep_id mapGet_def map_of_mapSet split: option.splits)

text \<open>Keys of the map: the identifiers seen.\<close>

lemma keys_dedupStep:
  "fst ` set (dedupStep m e) =
     (case orderIdOf e of None \<Rightarrow> fst ` set m | Some k \<Rightarrow> insert k (fst ` set m))"
proof (cases "orderIdOf e")
  case None
  then show ?thesis by (simp add: dedupStep_no_id)
next
  case (Some k)
  have "mapGet m k = Some x \<Longrightarrow> k \<in> fst ` set m" for x
    unfolding mapGet_def by (metis map_of_SomeD fst_conv image_eqI)
  then show ?thesis using Some
    by (auto simp: dedupStep_id keys_mapSet split: option.splits)
qed

lemma keys_dedupOrders:
  "fst ` set (dedupOrders evs) = {k. \<exists>e \<in> set evs. orderIdOf e = Some k}"
proof (induction evs rule: rev_induct)
  case Nil
  then show ?case by (simp add: dedupOrders_def)
next
  case (snoc e evs)
  then show ?case
    by (auto simp: dedupOrders_snoc keys_dedupStep split: option.splits)
qed

lemma distinct_dedupStep: "distinct (map fst m) \<Longrightarrow> distinct (map fst (dedupStep m e))"
  by (cases "orderIdOf e")
     (auto simp: dedupStep_no_id dedupStep_id distinct_mapSet split: option.splits)

lemma distinct_dedupOrders: "distinct (map fst (dedupOrders evs))"
  by (induction evs rule: rev_induct)
     (simp_all add: dedupOrders_def distinct_dedupStep)

lemma mapGet_None_iff: "mapGet m k = None \<longleftrightarrow> k \<notin> fst ` set m"
  by (simp add: mapGet_def map_of_eq_None_iff)


lemma keptFor_snoc_other:
  assumes "orderIdOf e \<noteq> Some k"
  shows "keptFor k w (evs @ [e]) \<longleftrightarrow> keptFor k w evs"
proof
  assume "keptFor k w (evs @ [e])"
  then obtain pre post where sp: "evs @ [e] = pre @ w # post" and id: "orderIdOf w = Some k"
    and lo: "\<forall>x \<in> set pre. orderIdOf x = Some k \<longrightarrow> created_at x < created_at w"
    and hi: "\<forall>x \<in> set post. orderIdOf x = Some k \<longrightarrow> created_at x \<le> created_at w"
    unfolding keptFor_def by blast
  have "post \<noteq> []"
  proof
    assume "post = []"
    then have "e = w" using sp by simp
    then show False using id assms by simp
  qed
  then obtain post' y where py: "post = post' @ [y]"
    by (cases post rule: rev_cases) auto
  then have "evs @ [e] = (pre @ w # post') @ [y]" using sp by simp
  then have q: "evs = pre @ w # post'" and "e = y" by (simp_all only: append1_eq_conv)
  then have p: "post = post' @ [e]" using py by simp
  have "\<forall>x \<in> set post'. orderIdOf x = Some k \<longrightarrow> created_at x \<le> created_at w"
    using hi p by simp
  then show "keptFor k w evs" unfolding keptFor_def using q id lo by blast
next
  assume "keptFor k w evs"
  then obtain pre post where sp: "evs = pre @ w # post" and id: "orderIdOf w = Some k"
    and lo: "\<forall>x \<in> set pre. orderIdOf x = Some k \<longrightarrow> created_at x < created_at w"
    and hi: "\<forall>x \<in> set post. orderIdOf x = Some k \<longrightarrow> created_at x \<le> created_at w"
    unfolding keptFor_def by blast
  have "evs @ [e] = pre @ w # (post @ [e])" using sp by simp
  moreover have "\<forall>x \<in> set (post @ [e]). orderIdOf x = Some k \<longrightarrow> created_at x \<le> created_at w"
    using hi assms by simp
  ultimately show "keptFor k w (evs @ [e])" unfolding keptFor_def using id lo by blast
qed


lemma keptFor_snoc_same:
  assumes ide: "orderIdOf e = Some k"
  shows "keptFor k w (evs @ [e]) \<longleftrightarrow>
           (w = e \<and> (\<forall>x \<in> set evs. orderIdOf x = Some k \<longrightarrow> created_at x < created_at e))
         \<or> (keptFor k w evs \<and> created_at e \<le> created_at w)"
proof
  assume "keptFor k w (evs @ [e])"
  then obtain pre post where sp: "evs @ [e] = pre @ w # post" and id: "orderIdOf w = Some k"
    and lo: "\<forall>x \<in> set pre. orderIdOf x = Some k \<longrightarrow> created_at x < created_at w"
    and hi: "\<forall>x \<in> set post. orderIdOf x = Some k \<longrightarrow> created_at x \<le> created_at w"
    unfolding keptFor_def by blast
  show "(w = e \<and> (\<forall>x \<in> set evs. orderIdOf x = Some k \<longrightarrow> created_at x < created_at e))
         \<or> (keptFor k w evs \<and> created_at e \<le> created_at w)"
  proof (cases post rule: rev_cases)
    case Nil
    then have "evs = pre" "e = w" using sp by simp_all
    then show ?thesis using lo by simp
  next
    case (snoc post' y)
    then have "evs @ [e] = (pre @ w # post') @ [y]" using sp by simp
    then have q: "evs = pre @ w # post'" and "e = y" by (simp_all only: append1_eq_conv)
    then have p: "post = post' @ [e]" using snoc by simp
    have "created_at e \<le> created_at w" using hi p ide by simp
    moreover have "\<forall>x \<in> set post'. orderIdOf x = Some k \<longrightarrow> created_at x \<le> created_at w"
      using hi p by simp
    then have "keptFor k w evs" unfolding keptFor_def using q id lo by blast
    ultimately show ?thesis by simp
  qed
next
  assume "(w = e \<and> (\<forall>x \<in> set evs. orderIdOf x = Some k \<longrightarrow> created_at x < created_at e))
         \<or> (keptFor k w evs \<and> created_at e \<le> created_at w)"
  then show "keptFor k w (evs @ [e])"
  proof
    assume a: "w = e \<and> (\<forall>x \<in> set evs. orderIdOf x = Some k \<longrightarrow> created_at x < created_at e)"
    have "evs @ [e] = evs @ w # []" using a by simp
    then show ?thesis unfolding keptFor_def using a ide by fastforce
  next
    assume a: "keptFor k w evs \<and> created_at e \<le> created_at w"
    then obtain pre post where sp: "evs = pre @ w # post" and id: "orderIdOf w = Some k"
      and lo: "\<forall>x \<in> set pre. orderIdOf x = Some k \<longrightarrow> created_at x < created_at w"
      and hi: "\<forall>x \<in> set post. orderIdOf x = Some k \<longrightarrow> created_at x \<le> created_at w"
      unfolding keptFor_def by blast
    have "evs @ [e] = pre @ w # (post @ [e])" using sp by simp
    moreover have "\<forall>x \<in> set (post @ [e]). orderIdOf x = Some k \<longrightarrow> created_at x \<le> created_at w"
      using hi a by simp
    ultimately show ?thesis unfolding keptFor_def using id lo by blast
  qed
qed

lemma keptFor_greatest:
  assumes "keptFor k w evs" and "x \<in> set evs" and "orderIdOf x = Some k"
  shows "created_at x \<le> created_at w"
proof -
  obtain pre post where sp: "evs = pre @ w # post"
    and lo: "\<forall>x \<in> set pre. orderIdOf x = Some k \<longrightarrow> created_at x < created_at w"
    and hi: "\<forall>x \<in> set post. orderIdOf x = Some k \<longrightarrow> created_at x \<le> created_at w"
    using assms(1) unfolding keptFor_def by blast
  have "x \<in> set pre \<or> x = w \<or> x \<in> set post" using assms(2) sp by auto
  then show ?thesis using lo hi assms(3) by fastforce
qed

lemma keptFor_member: "keptFor k w evs \<Longrightarrow> w \<in> set evs \<and> orderIdOf w = Some k"
  unfolding keptFor_def by auto

lemma dedup_keptFor: "mapGet (dedupOrders evs) k = Some w \<longleftrightarrow> keptFor k w evs"
proof (induction evs arbitrary: w rule: rev_induct)
  case Nil
  then show ?case by (simp add: dedupOrders_def mapGet_def keptFor_def)
next
  case (snoc e evs)
  let ?m = "dedupOrders evs"
  show ?case
  proof (cases "orderIdOf e = Some k")
    case False
    then show ?thesis
      using snoc.IH by (simp add: dedupOrders_snoc mapGet_dedupStep_other keptFor_snoc_other)
  next
    case True
    note step = mapGet_dedupStep_same [OF True, of ?m]
    show ?thesis
    proof (cases "mapGet ?m k")
      case None
      then have "k \<notin> fst ` set ?m" by (simp add: mapGet_None_iff)
      then have none: "\<forall>x \<in> set evs. orderIdOf x \<noteq> Some k"
        by (simp add: keys_dedupOrders)
      have "\<not> keptFor k w evs" using snoc.IH [of w] None by simp
      then show ?thesis
        using None step none by (auto simp: dedupOrders_snoc keptFor_snoc_same [OF True])
    next
      case (Some x)
      then have kx: "keptFor k x evs" using snoc.IH by simp
      have uniq: "keptFor k w evs \<longleftrightarrow> w = x" using snoc.IH [of w] Some by auto
      have le: "\<forall>y \<in> set evs. orderIdOf y = Some k \<longrightarrow> created_at y \<le> created_at x"
        using keptFor_greatest [OF kx] by blast
      have xin: "x \<in> set evs \<and> orderIdOf x = Some k" using keptFor_member [OF kx] .
      show ?thesis
      proof (cases "created_at e > created_at x")
        case True
        then have "mapGet (dedupOrders (evs @ [e])) k = Some e"
          using step Some by (simp add: dedupOrders_snoc)
        moreover have "keptFor k w (evs @ [e]) \<longleftrightarrow> w = e"
          unfolding keptFor_snoc_same [OF \<open>orderIdOf e = Some k\<close>] uniq
          using True le by fastforce
        ultimately show ?thesis by auto
      next
        case False
        then have "mapGet (dedupOrders (evs @ [e])) k = Some x"
          using step Some by (simp add: dedupOrders_snoc)
        moreover have "keptFor k w (evs @ [e]) \<longleftrightarrow> w = x"
          unfolding keptFor_snoc_same [OF \<open>orderIdOf e = Some k\<close>] uniq
          using False xin by fastforce
        ultimately show ?thesis by auto
      qed
    qed
  qed
qed


lemma keptFor_Max:
  assumes "keptFor k w evs"
  shows "created_at w = Max (created_at ` {e \<in> set evs. orderIdOf e = Some k})"
proof -
  have "w \<in> {e \<in> set evs. orderIdOf e = Some k}" using keptFor_member [OF assms] by simp
  moreover have "\<And>y. y \<in> created_at ` {e \<in> set evs. orderIdOf e = Some k} \<Longrightarrow> y \<le> created_at w"
    using keptFor_greatest [OF assms] by auto
  ultimately show ?thesis by (intro Max_eqI [symmetric]) auto
qed

lemma entries_dedupStep:
  "(\<forall>(k, x) \<in> set m. orderIdOf x = Some k) \<Longrightarrow> (\<forall>(k, x) \<in> set (dedupStep m e). orderIdOf x = Some k)"
proof (cases "orderIdOf e")
  case None
  assume "\<forall>(k, x) \<in> set m. orderIdOf x = Some k"
  then show ?thesis using None by (simp add: dedupStep_no_id)
next
  case (Some k)
  assume a: "\<forall>(k, x) \<in> set m. orderIdOf x = Some k"
  have "\<forall>(k', x) \<in> set (mapSet m k e). orderIdOf x = Some k'"
    using set_mapSet_subset [of m k e] a Some by auto
  then show ?thesis using a Some by (simp add: dedupStep_id split: option.splits)
qed

lemma entries_dedupOrders: "\<forall>(k, x) \<in> set (dedupOrders evs). orderIdOf x = Some k"
proof (induction evs rule: rev_induct)
  case Nil
  then show ?case by (simp add: dedupOrders_def)
next
  case (snoc e evs)
  then show ?case unfolding dedupOrders_snoc by (rule entries_dedupStep)
qed

lemma refold_entries:
  "distinct (map fst (acc @ m)) \<Longrightarrow> (\<forall>(k, x) \<in> set m. orderIdOf x = Some k) \<Longrightarrow>
   foldl dedupStep acc (map snd m) = acc @ m"
proof (induction m arbitrary: acc)
  case Nil
  then show ?case by simp
next
  case (Cons p m)
  obtain k x where p: "p = (k, x)" by (cases p)
  have id: "orderIdOf x = Some k" using Cons.prems(2) p by simp
  have fresh: "k \<notin> fst ` set acc" using Cons.prems(1) p by auto
  then have "mapGet acc k = None" by (simp add: mapGet_None_iff)
  then have step: "dedupStep acc x = acc @ [(k, x)]"
    using id fresh by (simp add: dedupStep_id mapSet_fresh)
  have "foldl dedupStep (acc @ [(k, x)]) (map snd m) = (acc @ [(k, x)]) @ m"
    using Cons.prems p by (intro Cons.IH) auto
  then show ?case using step p by simp
qed

text \<open>
  Claim C9. Deduplication is idempotent: running the deduplicator on the records of
  its own output, in the map's iteration order, yields the same map as the first run.
\<close>

theorem dedup_idempotent: "dedupOrders (mapValues (dedupOrders evs)) = dedupOrders evs"
proof -
  have "dedupOrders (mapValues (dedupOrders evs)) = foldl dedupStep [] (map snd (dedupOrders evs))"
    by (simp add: dedupOrders_def mapValues_def)
  also have "\<dots> = [] @ dedupOrders evs"
    using distinct_dedupOrders [of evs] entries_dedupOrders [of evs]
    by (intro refold_entries) auto
  finally show ?thesis by simp
qed

text \<open>
  Claim C2, as the code has it. For every sequence of order events the map holds
  exactly one record per distinct order identifier seen; the record kept for an
  identifier has the greatest \<open>created_at\<close> among the events with that identifier; a
  stored record is left alone unless the incoming event is strictly newer, and is
  replaced when it is; so among events with the same identifier and the same greatest
  timestamp the earliest in iteration order is kept (\<open>keptFor\<close>).
\<close>

theorem dedup_first_latest_wins:
  "distinct (map fst (dedupOrders evs))
   \<and> fst ` set (dedupOrders evs) = {k. \<exists>e \<in> set evs. orderIdOf e = Some k}
   \<and> (mapGet (dedupOrders evs) k = Some w \<longleftrightarrow> keptFor k w evs)
   \<and> (mapGet (dedupOrders evs) k = Some w \<longrightarrow>
        created_at w = Max (created_at ` {e \<in> set evs. orderIdOf e = Some k}))
   \<and> (orderIdOf e = Some k \<and> mapGet m k = Some x \<and> created_at e \<le> created_at x \<longrightarrow>
        dedupStep m e = m)
   \<and> (orderIdOf e = Some k \<and> mapGet m k = Some x \<and> created_at x < created_at e \<longrightarrow>
        mapGet (dedupStep m e) k = Some e)"
proof -
  have "mapGet (dedupOrders evs) k = Some w \<longrightarrow>
        created_at w = Max (created_at ` {e \<in> set evs. orderIdOf e = Some k})"
    using keptFor_Max [of k w evs] by (simp add: dedup_keptFor)
  moreover have "orderIdOf e = Some k \<and> mapGet m k = Some x \<and> created_at e \<le> created_at x \<longrightarrow>
        dedupStep m e = m"
    by (simp add: dedupStep_id)
  moreover have "orderIdOf e = Some k \<and> mapGet m k = Some x \<and> created_at x < created_at e \<longrightarrow>
        mapGet (dedupStep m e) k = Some e"
    by (simp add: mapGet_dedupStep_same)
  ultimately show ?thesis
    using distinct_dedupOrders [of evs] keys_dedupOrders [of evs] dedup_keptFor [of evs k w]
    by blast
qed


text \<open>
  Two events for one identifier with equal timestamps: the first one iterated stays in
  the map, the later one does not replace it.
\<close>

theorem dedup_tie_counterexample:
  "mapGet (dedupOrders [ev 100 [[''d'', ''a''], [''s'', ''success'']],
                        ev 100 [[''d'', ''a''], [''s'', ''canceled'']]]) ''a''
     = Some (ev 100 [[''d'', ''a''], [''s'', ''success'']])
   \<and> mapGet (dedupOrders [ev 100 [[''d'', ''a''], [''s'', ''success'']],
                          ev 100 [[''d'', ''a''], [''s'', ''canceled'']]]) ''a''
     \<noteq> Some (ev 100 [[''d'', ''a''], [''s'', ''canceled'']])"
  by (simp add: dedupOrders_def dedupStep_def getTagValue_def mapGet_def)

theorem dedup_first_latest_wins_witness:
  "mapGet (dedupOrders [ev 100 [[''d'', ''a''], [''s'', ''success'']],
                        ev 50 [[''d'', ''b'']],
                        ev 300 [[''s'', ''success'']],
                        ev 200 [[''d'', ''a''], [''s'', ''pending'']],
                        ev 200 [[''d'', ''a''], [''s'', ''success'']],
                        ev 150 [[''d'', ''a''], [''s'', ''canceled'']]]) ''a''
     = Some (ev 200 [[''d'', ''a''], [''s'', ''pending'']])
   \<and> keptFor ''a'' (ev 200 [[''d'', ''a''], [''s'', ''pending'']])
         [ev 100 [[''d'', ''a''], [''s'', ''success'']],
          ev 50 [[''d'', ''b'']],
          ev 300 [[''s'', ''success'']],
          ev 200 [[''d'', ''a''], [''s'', ''pending'']],
          ev 200 [[''d'', ''a''], [''s'', ''success'']],
          ev 150 [[''d'', ''a''], [''s'', ''canceled'']]]
   \<and> map fst (dedupOrders [ev 100 [[''d'', ''a''], [''s'', ''success'']],
                        ev 50 [[''d'', ''b'']],
                        ev 300 [[''s'', ''success'']],
                        ev 200 [[''d'', ''a''], [''s'', ''pending'']],
                        ev 200 [[''d'', ''a''], [''s'', ''success'']],
                        ev 150 [[''d'', ''a''], [''s'', ''canceled'']]]) = [''a'', ''b'']
   \<and> dedupStep [(''a'', ev 200 [[''d'', ''a''], [''s'', ''pending'']])]
         (ev 200 [[''d'', ''a''], [''s'', ''success'']])
       = [(''a'', ev 200 [[''d'', ''a''], [''s'', ''pending'']])]
   \<and> mapGet (dedupStep [(''a'', ev 100 [[''d'', ''a''], [''s'', ''success'']])]
                 (ev 200 [[''d'', ''a''], [''s'', ''pending'']])) ''a''
       = Some (ev 200 [[''d'', ''a''], [''s'', ''pending'']])"
proof -
  let ?evs = "[ev 100 [[''d'', ''a''], [''s'', ''success'']],
               ev 50 [[''d'', ''b'']],
               ev 300 [[''s'', ''success'']],
               ev 200 [[''d'', ''a''], [''s'', ''pending'']],
               ev 200 [[''d'', ''a''], [''s'', ''success'']],
               ev 150 [[''d'', ''a''], [''s'', ''canceled'']]]"
  have c: "dedupOrders ?evs = [(''a'', ev 200 [[''d'', ''a''], [''s'', ''pending'']]), (''b'', ev 50 [[''d'', ''b'']])]"
    by (simp add: dedupOrders_def dedupStep_def getTagValue_def mapGet_def)
  have g: "mapGet (dedupOrders ?evs) ''a'' = Some (ev 200 [[''d'', ''a''], [''s'', ''pending'']])"
    unfolding c by (simp add: mapGet_def)
  have main: "keptFor ''a'' (ev 200 [[''d'', ''a''], [''s'', ''pending'']]) ?evs
      \<and> map fst (dedupOrders ?evs) = [''a'', ''b'']"
    using dedup_first_latest_wins [of ?evs "''a''" "ev 200 [[''d'', ''a''], [''s'', ''pending'']]"] g c
    by simp
  have id1: "orderIdOf (ev 200 [[''d'', ''a''], [''s'', ''success'']]) = Some ''a''"
    by (simp add: orderIdOf_def getTagValue_def)
  have id2: "orderIdOf (ev 200 [[''d'', ''a''], [''s'', ''pending'']]) = Some ''a''"
    by (simp add: orderIdOf_def getTagValue_def)
  have keep: "dedupStep [(''a'', ev 200 [[''d'', ''a''], [''s'', ''pending'']])]
         (ev 200 [[''d'', ''a''], [''s'', ''success'']])
       = [(''a'', ev 200 [[''d'', ''a''], [''s'', ''pending'']])]"
    using dedup_first_latest_wins
      [where e = "ev 200 [[''d'', ''a''], [''s'', ''success'']]" and k = "''a''"
         and m = "[(''a'', ev 200 [[''d'', ''a''], [''s'', ''pending'']])]"
         and x = "ev 200 [[''d'', ''a''], [''s'', ''pending'']]"] id1
    by (simp add: mapGet_def)
  have replace: "mapGet (dedupStep [(''a'', ev 100 [[''d'', ''a''], [''s'', ''success'']])]
                 (ev 200 [[''d'', ''a''], [''s'', ''pending'']])) ''a''
       = Some (ev 200 [[''d'', ''a''], [''s'', ''pending'']])"
    using dedup_first_latest_wins
      [where e = "ev 200 [[''d'', ''a''], [''s'', ''pending'']]" and k = "''a''"
         and m = "[(''a'', ev 100 [[''d'', ''a''], [''s'', ''success'']])]"
         and x = "ev 100 [[''d'', ''a''], [''s'', ''success'']]"] id2
    by (simp add: mapGet_def)
  show ?thesis using g main keep replace by blast
qed

theorem dedup_idempotent_witness:
  "dedupOrders (mapValues (dedupOrders [ev 100 [[''d'', ''a''], [''s'', ''success'']],
                                        ev 50 [[''d'', ''b'']],
                                        ev 200 [[''d'', ''a''], [''s'', ''pending'']]]))
     = [(''a'', ev 200 [[''d'', ''a''], [''s'', ''pending'']]), (''b'', ev 50 [[''d'', ''b'']])]"
proof -
  have "dedupOrders [ev 100 [[''d'', ''a''], [''s'', ''success'']],
                     ev 50 [[''d'', ''b'']],
                     ev 200 [[''d'', ''a''], [''s'', ''pending'']]]
        = [(''a'', ev 200 [[''d'', ''a''], [''s'', ''pending'']]), (''b'', ev 50 [[''d'', ''b'']])]"
    by (simp add: dedupOrders_def dedupStep_def getTagValue_def mapGet_def)
  then show ?thesis
    using dedup_idempotent [of "[ev 100 [[''d'', ''a''], [''s'', ''success'']],
                                 ev 50 [[''d'', ''b'']],
                                 ev 200 [[''d'', ''a''], [''s'', ''pending'']]]"]
    by simp
qed

section \<open>Time range, longevity and liveness\<close>

lemma scan_fold:
  "foldl scanStep st evs =
     \<lparr>ordersMap = foldl dedupStep (ordersMap st) evs,
      firstOrderTs = foldl trackFirst (firstOrderTs st) (map created_at evs),
      lastOrderTs = foldl trackLast (lastOrderTs st) (map created_at evs)\<rparr>"
  by (induction evs arbitrary: st) (simp_all add: scanStep_def)

lemma ordersMap_scanOrders: "ordersMap (scanOrders evs) = dedupOrders evs"
  by (simp add: scanOrders_def scan_fold scanInit_def dedupOrders_def)

lemma foldl_trackLast: "foldl trackLast a ts = Max (insert a (set ts))"
proof (induction ts arbitrary: a)
  case Nil
  then show ?case by simp
next
  case (Cons t ts)
  have "trackLast a t = max a t" by (simp add: trackLast_def max_def)
  then have "foldl trackLast a (t # ts) = Max (insert (max a t) (set ts))"
    using Cons.IH by simp
  also have "\<dots> = Max (insert a (insert t (set ts)))"
    by (cases "set ts = {}") (simp_all add: max.assoc)
  finally show ?case by simp
qed

lemma foldl_trackFirst_Some: "foldl trackFirst (Some a) ts = Some (Min (insert a (set ts)))"
proof (induction ts arbitrary: a)
  case Nil
  then show ?case by simp
next
  case (Cons t ts)
  have "trackFirst (Some a) t = Some (min a t)" by (simp add: trackFirst_def min_def)
  then have "foldl trackFirst (Some a) (t # ts) = Some (Min (insert (min a t) (set ts)))"
    using Cons.IH by simp
  also have "\<dots> = Some (Min (insert a (insert t (set ts))))"
    by (cases "set ts = {}") (simp_all add: min.assoc)
  finally show ?case by simp
qed

lemma lastOrderTs_scanOrders:
  "lastOrderTs (scanOrders evs) = Max (insert 0 (created_at ` set evs))"
  by (simp add: scanOrders_def scan_fold scanInit_def foldl_trackLast)

lemma firstOrderTs_scanOrders:
  "firstOrderTs (scanOrders evs) =
     (if evs = [] then None else Some (Min (created_at ` set evs)))"
proof (cases evs)
  case Nil
  then show ?thesis by (simp add: scanOrders_def scanInit_def)
next
  case (Cons e es)
  have "firstOrderTs (scanOrders (e # es)) = foldl trackFirst (Some (created_at e)) (map created_at es)"
    by (simp add: scanOrders_def scan_fold scanInit_def scanStep_def trackFirst_def)
  then show ?thesis using Cons by (simp add: foldl_trackFirst_Some)
qed

lemma lastOrderTs_pos_iff:
  "lastOrderTs (scanOrders evs) > 0 \<longleftrightarrow> (\<exists>e \<in> set evs. created_at e > 0)"
  unfolding lastOrderTs_scanOrders
  by (subst Max_gr_iff) auto

lemma lastOrderTs_pos_Max:
  assumes "\<exists>e \<in> set evs. created_at e > 0"
  shows "lastOrderTs (scanOrders evs) = Max (created_at ` set evs)"
proof -
  from assms have ne: "created_at ` set evs \<noteq> {}" by auto
  have "Max (created_at ` set evs) > 0" using assms ne by (subst Max_gr_iff) auto
  then show ?thesis unfolding lastOrderTs_scanOrders using ne by (simp add: max_def)
qed

lemma scan_first_finite:
  "lastOrderTs (scanOrders evs) > 0 \<Longrightarrow> firstOrderTs (scanOrders evs) \<noteq> None"
  by (auto simp: lastOrderTs_pos_iff firstOrderTs_scanOrders)

lemma firstDevFeeTs_Min:
  "firstDevFeeTs devFee = (if devFee = [] then None else Some (Min (created_at ` set devFee)))"
proof (cases "devFee = []")
  case True
  then show ?thesis by (simp add: firstDevFeeTs_def)
next
  case False
  let ?ys = "sort_key created_at devFee"
  have ne: "?ys \<noteq> []" using False by (metis length_sort length_0_conv)
  then obtain y ys where s: "?ys = y # ys" by (cases ?ys) auto
  have "sorted (map created_at ?ys)" by (rule sorted_sort_key)
  then have "\<forall>z \<in> set (y # ys). created_at y \<le> created_at z" using s by auto
  moreover have "set (y # ys) = set devFee" using set_sort [of created_at devFee] s by simp
  ultimately have "Min (created_at ` set devFee) = created_at y"
    by (intro Min_eqI) auto
  then show ?thesis using False s by (simp add: firstDevFeeTs_def)
qed

lemma daysActive_metricsAt:
  "daysActive (metricsAt now devFee orders) =
     daysActiveOf now (firstDevFeeTs devFee) (scanOrders orders)"
  by (simp add: metricsAt_def Let_def)

lemma lastTrade_metricsAt:
  "lastTrade (metricsAt now devFee orders) =
     (if lastOrderTs (scanOrders orders) > 0 then Some (lastOrderTs (scanOrders orders)) else None)"
  by (simp add: metricsAt_def Let_def)

lemma daysSinceLast_metricsAt:
  "daysSinceLast (metricsAt now devFee orders) =
     (if lastOrderTs (scanOrders orders) > 0
      then (now - lastOrderTs (scanOrders orders)) div SECONDS_PER_DAY else 0)"
  by (simp add: metricsAt_def Let_def)

lemma computeMetrics_metricsAt:
  "computeMetrics dateNow devFee orders = metricsAt (dateNow div 1000) devFee orders"
  by (simp add: computeMetrics_def)

text \<open>
  Claim C10, as the code has it. The liveness metrics come from all raw order events,
  whatever their status, identifier or duplication. \<^verbatim>\<open>lastOrderTs\<close> starts at 0 and the
  report tests \<^verbatim>\<open>lastOrderTs > 0\<close>: when some order event has a positive \<open>created_at\<close>,
  \<open>lastTrade\<close> is the maximum \<open>created_at\<close> over every order event and \<open>daysSinceLast\<close>
  is \<open>floor ((now - lastTrade) / 86400)\<close>; otherwise (no order event, or none with a
  positive timestamp) \<open>lastTrade\<close> is null and \<open>daysSinceLast\<close> is 0.
\<close>

theorem liveness_spec:
  "lastTrade (computeMetrics dateNow devFee orders) =
     (if \<exists>e \<in> set orders. created_at e > 0
      then Some (Max (created_at ` set orders)) else None)
   \<and> daysSinceLast (computeMetrics dateNow devFee orders) =
     (if \<exists>e \<in> set orders. created_at e > 0
      then (dateNow div 1000 - Max (created_at ` set orders)) div 86400 else 0)"
proof (cases "\<exists>e \<in> set orders. created_at e > 0")
  case True
  then show ?thesis
    using lastOrderTs_pos_Max [OF True] lastOrderTs_pos_iff [of orders]
    by (simp add: computeMetrics_metricsAt lastTrade_metricsAt daysSinceLast_metricsAt
        SECONDS_PER_DAY_def)
next
  case False
  then show ?thesis
    using lastOrderTs_pos_iff [of orders]
    by (simp add: computeMetrics_metricsAt lastTrade_metricsAt daysSinceLast_metricsAt)
qed

text \<open>
  One order event dated at the epoch: an order event exists and the maximum
  \<open>created_at\<close> is 0, yet \<open>lastTrade\<close> is null.
\<close>

theorem liveness_epoch_counterexample:
  "lastTrade (computeMetrics 1700000000000 [] [ev 0 [[''d'', ''a''], [''s'', ''success'']]]) = None
   \<and> Max (created_at ` set [ev 0 [[''d'', ''a''], [''s'', ''success'']]]) = 0"
  by (simp add: computeMetrics_metricsAt lastTrade_metricsAt scanOrders_def scanStep_def
      scanInit_def trackLast_def)

theorem liveness_spec_witness:
  "lastTrade (computeMetrics 1700000000999 []
      [ev 1699000000 [[''d'', ''a''], [''s'', ''canceled'']],
       ev 1699900000 [[''s'', ''success'']],
       ev 1699500000 [[''d'', ''a''], [''s'', ''success'']]]) = Some 1699900000
   \<and> daysSinceLast (computeMetrics 1700000000999 []
      [ev 1699000000 [[''d'', ''a''], [''s'', ''canceled'']],
       ev 1699900000 [[''s'', ''success'']],
       ev 1699500000 [[''d'', ''a''], [''s'', ''success'']]]) = 1
   \<and> lastTrade (computeMetrics 1700000000999 [] []) = None
   \<and> daysSinceLast (computeMetrics 1700000000999 [] []) = 0"
  using liveness_spec [of 1700000000999 "[]"
      "[ev 1699000000 [[''d'', ''a''], [''s'', ''canceled'']],
        ev 1699900000 [[''s'', ''success'']],
        ev 1699500000 [[''d'', ''a''], [''s'', ''success'']]]"]
    liveness_spec [of 1700000000999 "[]" "[]"]
  by simp

text \<open>
  Claim C3, as the code has it. The divisor is the constant 86400, so nothing divides
  by zero. \<open>daysActive\<close> is \<open>(now - min anchor created_at) / 86400\<close> when an anchor
  event exists; otherwise \<open>(lastOrderTs - firstOrderTs) / 86400\<close> over the raw order
  timestamps when some order event has a positive timestamp; otherwise 0. Without an
  anchor the value is never negative (a single order event gives 0). With an anchor
  nothing clamps it: it is non-negative exactly when the earliest anchor is not later
  than \<open>now\<close>.
\<close>

theorem daysActive_spec:
  "daysActive (computeMetrics dateNow devFee orders) =
     (if devFee \<noteq> [] then of_int (dateNow div 1000 - Min (created_at ` set devFee)) / 86400
      else if \<exists>e \<in> set orders. created_at e > 0
      then of_int (Max (created_at ` set orders) - Min (created_at ` set orders)) / 86400
      else 0)
   \<and> (devFee = [] \<longrightarrow> 0 \<le> daysActive (computeMetrics dateNow devFee orders))
   \<and> (devFee \<noteq> [] \<longrightarrow>
        (0 \<le> daysActive (computeMetrics dateNow devFee orders)
           \<longleftrightarrow> Min (created_at ` set devFee) \<le> dateNow div 1000))"
proof -
  let ?now = "dateNow div 1000"
  have eq: "daysActive (computeMetrics dateNow devFee orders) =
     (if devFee \<noteq> [] then of_int (?now - Min (created_at ` set devFee)) / 86400
      else if \<exists>e \<in> set orders. created_at e > 0
      then of_int (Max (created_at ` set orders) - Min (created_at ` set orders)) / 86400
      else 0)"
  proof (cases "devFee = []")
    case False
    then show ?thesis
      by (simp add: computeMetrics_metricsAt daysActive_metricsAt firstDevFeeTs_Min
          daysActiveOf_def SECONDS_PER_DAY_def)
  next
    case True
    show ?thesis
    proof (cases "\<exists>e \<in> set orders. created_at e > 0")
      case ex: True
      then have "orders \<noteq> []" by auto
      then show ?thesis
        using True ex lastOrderTs_pos_Max [OF ex] lastOrderTs_pos_iff [of orders]
        by (simp add: computeMetrics_metricsAt daysActive_metricsAt firstDevFeeTs_Min
            daysActiveOf_def SECONDS_PER_DAY_def firstOrderTs_scanOrders)
    next
      case nex: False
      then show ?thesis
        using True lastOrderTs_pos_iff [of orders]
        by (simp add: computeMetrics_metricsAt daysActive_metricsAt firstDevFeeTs_Min
            daysActiveOf_def)
    qed
  qed
  have nonneg: "0 \<le> daysActive (computeMetrics dateNow devFee orders)" if "devFee = []"
  proof (cases "\<exists>e \<in> set orders. created_at e > 0")
    case True
    then obtain e where e: "e \<in> set orders" by blast
    have "Min (created_at ` set orders) \<le> created_at e"
      "created_at e \<le> Max (created_at ` set orders)"
      using e by simp_all
    then have "Min (created_at ` set orders) \<le> Max (created_at ` set orders)"
      by linarith
    then show ?thesis using eq that True by simp
  next
    case False
    then show ?thesis using eq that by simp
  qed
  have anchor: "0 \<le> daysActive (computeMetrics dateNow devFee orders)
           \<longleftrightarrow> Min (created_at ` set devFee) \<le> ?now" if "devFee \<noteq> []"
  proof -
    have e2: "daysActive (computeMetrics dateNow devFee orders) =
        of_int (?now - Min (created_at ` set devFee)) / 86400"
      unfolding eq by (rule if_P) (rule that)
    show ?thesis unfolding e2 by (simp add: zero_le_divide_iff)
  qed
  show ?thesis
  proof (intro conjI impI)
    show "daysActive (computeMetrics dateNow devFee orders) =
     (if devFee \<noteq> [] then of_int (?now - Min (created_at ` set devFee)) / 86400
      else if \<exists>e \<in> set orders. created_at e > 0
      then of_int (Max (created_at ` set orders) - Min (created_at ` set orders)) / 86400
      else 0)" by (rule eq)
  next
    assume "devFee = []"
    then show "0 \<le> daysActive (computeMetrics dateNow devFee orders)" by (rule nonneg)
  next
    assume "devFee \<noteq> []"
    then show "0 \<le> daysActive (computeMetrics dateNow devFee orders)
           \<longleftrightarrow> Min (created_at ` set devFee) \<le> ?now" by (rule anchor)
  qed
qed

text \<open>An anchor dated one day after \<open>now\<close>: \<open>daysActive\<close> is \<open>-1\<close>.\<close>

theorem daysActive_future_anchor_counterexample:
  "daysActive (computeMetrics 1700000000000 [ev 1700086400 [[''z'', ''dev-fee-payment'']]] []) = - 1"
  by (simp add: computeMetrics_metricsAt daysActive_metricsAt firstDevFeeTs_def daysActiveOf_def
      SECONDS_PER_DAY_def)

theorem daysActive_spec_witness:
  "daysActive (computeMetrics 1700000000000
      [ev 1690000000 [[''z'', ''dev-fee-payment'']], ev 1665440000 [[''z'', ''dev-fee-payment'']]] []) = 400
   \<and> daysActive (computeMetrics 1700000000000 []
      [ev 1699000000 [[''d'', ''a'']], ev 1699864000 [[''d'', ''b'']], ev 1699432000 []]) = 10
   \<and> daysActive (computeMetrics 1700000000000 [] [ev 1699000000 [[''d'', ''a'']]]) = 0
   \<and> daysActive (computeMetrics 1700000000000 [] []) = 0"
  using daysActive_spec [of 1700000000000
      "[ev 1690000000 [[''z'', ''dev-fee-payment'']], ev 1665440000 [[''z'', ''dev-fee-payment'']]]" "[]"]
    daysActive_spec [of 1700000000000 "[]"
      "[ev 1699000000 [[''d'', ''a'']], ev 1699864000 [[''d'', ''b'']], ev 1699432000 []]"]
    daysActive_spec [of 1700000000000 "[]" "[ev 1699000000 [[''d'', ''a'']]]"]
    daysActive_spec [of 1700000000000 "[]" "[]"]
  by simp

section \<open>Successful orders, amounts and volume\<close>

lemma parseInt_empty: "parseInt [] = None"
  by (simp add: parseInt_def)

lemma includedAmount_iff:
  "includedAmount e = Some n \<longleftrightarrow>
     (\<exists>s. getTagValue e ''amt'' = Some s \<and> parseInt s = Some n \<and> 0 < n)"
  by (auto simp: includedAmount_def split: option.splits if_splits)

lemma addAmount_eq:
  "addAmount t e =
     (case includedAmount e of
        None \<Rightarrow> t
      | Some n \<Rightarrow> t\<lparr>totalVolumeSats_acc := totalVolumeSats_acc t + n,
                     tradeAmounts := tradeAmounts t @ [n]\<rparr>)"
  by (auto simp: addAmount_def includedAmount_def parseInt_empty split: option.splits)

lemma tallyStep_eq:
  "tallyStep t e =
     (if isSuccess e
      then \<lparr>successfulOrders = successfulOrders t + 1,
            totalVolumeSats_acc =
              totalVolumeSats_acc t + (case includedAmount e of None \<Rightarrow> 0 | Some n \<Rightarrow> n),
            tradeAmounts =
              tradeAmounts t @ (case includedAmount e of None \<Rightarrow> [] | Some n \<Rightarrow> [n]),
            successfulTradeTimestamps = successfulTradeTimestamps t @ [created_at e]\<rparr>
      else t)"
  by (simp add: tallyStep_def isSuccess_def addAmount_eq split: option.splits)

lemma map_filter_Cons:
  "List.map_filter f (x # xs) = (case f x of None \<Rightarrow> [] | Some y \<Rightarrow> [y]) @ List.map_filter f xs"
  by (simp add: List.map_filter_def split: option.splits)

lemma tally_fold:
  "foldl tallyStep t es =
     \<lparr>successfulOrders = successfulOrders t + length (filter isSuccess es),
      totalVolumeSats_acc =
        totalVolumeSats_acc t + sum_list (List.map_filter includedAmount (filter isSuccess es)),
      tradeAmounts = tradeAmounts t @ List.map_filter includedAmount (filter isSuccess es),
      successfulTradeTimestamps =
        successfulTradeTimestamps t @ map created_at (filter isSuccess es)\<rparr>"
proof (induction es arbitrary: t)
  case Nil
  then show ?case by (simp add: List.map_filter_def)
next
  case (Cons e es)
  let ?t = "tallyStep t e"
  have "foldl tallyStep t (e # es) = foldl tallyStep ?t es" by simp
  also have "\<dots> =
     \<lparr>successfulOrders = successfulOrders ?t + length (filter isSuccess es),
      totalVolumeSats_acc =
        totalVolumeSats_acc ?t + sum_list (List.map_filter includedAmount (filter isSuccess es)),
      tradeAmounts = tradeAmounts ?t @ List.map_filter includedAmount (filter isSuccess es),
      successfulTradeTimestamps =
        successfulTradeTimestamps ?t @ map created_at (filter isSuccess es)\<rparr>"
    by (rule Cons.IH)
  also have "\<dots> =
     \<lparr>successfulOrders = successfulOrders t + length (filter isSuccess (e # es)),
      totalVolumeSats_acc =
        totalVolumeSats_acc t
          + sum_list (List.map_filter includedAmount (filter isSuccess (e # es))),
      tradeAmounts = tradeAmounts t @ List.map_filter includedAmount (filter isSuccess (e # es)),
      successfulTradeTimestamps =
        successfulTradeTimestamps t @ map created_at (filter isSuccess (e # es))\<rparr>"
    unfolding tallyStep_eq [of t e]
    by (simp add: map_filter_Cons split: option.splits)
  finally show ?case .
qed

lemma tallyOrders_eq:
  "tallyOrders es =
     \<lparr>successfulOrders = length (filter isSuccess es),
      totalVolumeSats_acc = sum_list (List.map_filter includedAmount (filter isSuccess es)),
      tradeAmounts = List.map_filter includedAmount (filter isSuccess es),
      successfulTradeTimestamps = map created_at (filter isSuccess es)\<rparr>"
  by (simp add: tallyOrders_def tally_fold tallyInit_def)

lemma successfulTrades_metricsAt:
  "successfulTrades (metricsAt now devFee orders) =
     successfulOrders (tallyOrders (mapValues (dedupOrders orders)))"
  by (simp add: metricsAt_def Let_def ordersMap_scanOrders)

lemma totalVolumeSats_metricsAt:
  "totalVolumeSats (metricsAt now devFee orders) =
     totalVolumeSats_acc (tallyOrders (mapValues (dedupOrders orders)))"
  by (simp add: metricsAt_def Let_def ordersMap_scanOrders)

text \<open>
  Claim C8. Every canonical order with status \<open>success\<close> increments the count of
  successful trades whatever its \<^verbatim>\<open>amt\<close> tag is; its amount enters the list of trade
  amounts and the total volume exactly when the tag is present and parses to a positive
  number (\<open>includedAmount\<close>); a missing, unparsable or non-positive amount adds nothing
  and the loop goes on with the remaining orders; the total volume is the sum of the
  amounts in the list. The count and the volume of the report are those of the
  deduplicated orders.
\<close>

theorem tally_spec:
  "successfulOrders (tallyOrders es) = length (filter isSuccess es)
   \<and> tradeAmounts (tallyOrders es) = List.map_filter includedAmount (filter isSuccess es)
   \<and> totalVolumeSats_acc (tallyOrders es) = sum_list (tradeAmounts (tallyOrders es))
   \<and> (includedAmount e = Some n \<longleftrightarrow>
        (\<exists>s. getTagValue e ''amt'' = Some s \<and> parseInt s = Some n \<and> 0 < n))
   \<and> (isSuccess e \<longrightarrow>
        successfulOrders (tallyStep t e) = successfulOrders t + 1
        \<and> tradeAmounts (tallyStep t e) =
            tradeAmounts t @ (case includedAmount e of None \<Rightarrow> [] | Some n \<Rightarrow> [n]))
   \<and> successfulTrades (computeMetrics dateNow devFee orders) =
        length (filter isSuccess (mapValues (dedupOrders orders)))
   \<and> totalVolumeSats (computeMetrics dateNow devFee orders) =
        sum_list (List.map_filter includedAmount (filter isSuccess (mapValues (dedupOrders orders))))"
proof -
  have "isSuccess e \<longrightarrow>
        successfulOrders (tallyStep t e) = successfulOrders t + 1
        \<and> tradeAmounts (tallyStep t e) =
            tradeAmounts t @ (case includedAmount e of None \<Rightarrow> [] | Some n \<Rightarrow> [n])"
    by (simp add: tallyStep_eq)
  moreover have "successfulTrades (computeMetrics dateNow devFee orders) =
        length (filter isSuccess (mapValues (dedupOrders orders)))"
    by (simp add: computeMetrics_def successfulTrades_metricsAt tallyOrders_eq)
  moreover have "totalVolumeSats (computeMetrics dateNow devFee orders) =
        sum_list (List.map_filter includedAmount (filter isSuccess (mapValues (dedupOrders orders))))"
    by (simp add: computeMetrics_def totalVolumeSats_metricsAt tallyOrders_eq)
  moreover have "successfulOrders (tallyOrders es) = length (filter isSuccess es)"
    "tradeAmounts (tallyOrders es) = List.map_filter includedAmount (filter isSuccess es)"
    "totalVolumeSats_acc (tallyOrders es) = sum_list (tradeAmounts (tallyOrders es))"
    by (simp_all add: tallyOrders_eq)
  ultimately show ?thesis using includedAmount_iff [of e n] by blast
qed

lemma parse_examples:
  "parseInt ''5000'' = Some 5000" "parseInt ''abc'' = None" "parseInt ''-5'' = Some (- 5)"
  "parseInt ''0'' = Some 0" "parseInt '' 42'' = Some 42" "parseInt ''12abc'' = Some 12"
  "parseInt ''1.9'' = Some 1" "parseInt ''0.5'' = Some 0"
  by (simp_all add: parseInt_def isWhiteSpace_def isDigit_def digitsValue_def digitValue_def)


theorem tally_spec_witness:
  "successfulTrades (computeMetrics 1700000000000 []
    [ev 1699990000 [[''d'', ''a''], [''s'', ''success''], [''amt'', ''5000'']],
     ev 1699990001 [[''d'', ''b''], [''s'', ''success''], [''amt'', ''abc'']],
     ev 1699990002 [[''d'', ''c''], [''s'', ''success''], [''amt'', ''-5'']],
     ev 1699990003 [[''d'', ''d''], [''s'', ''success'']],
     ev 1699990004 [[''d'', ''e''], [''s'', ''canceled''], [''amt'', ''100'']],
     ev 1699990005 [[''d'', ''f''], [''s'', ''success''], [''amt'', ''12abc'']]]) = 5
   \<and> totalVolumeSats (computeMetrics 1700000000000 []
    [ev 1699990000 [[''d'', ''a''], [''s'', ''success''], [''amt'', ''5000'']],
     ev 1699990001 [[''d'', ''b''], [''s'', ''success''], [''amt'', ''abc'']],
     ev 1699990002 [[''d'', ''c''], [''s'', ''success''], [''amt'', ''-5'']],
     ev 1699990003 [[''d'', ''d''], [''s'', ''success'']],
     ev 1699990004 [[''d'', ''e''], [''s'', ''canceled''], [''amt'', ''100'']],
     ev 1699990005 [[''d'', ''f''], [''s'', ''success''], [''amt'', ''12abc'']]]) = 5012
   \<and> tradeAmounts (tallyOrders (mapValues (dedupOrders
    [ev 1699990000 [[''d'', ''a''], [''s'', ''success''], [''amt'', ''5000'']],
     ev 1699990001 [[''d'', ''b''], [''s'', ''success''], [''amt'', ''abc'']],
     ev 1699990002 [[''d'', ''c''], [''s'', ''success''], [''amt'', ''-5'']],
     ev 1699990003 [[''d'', ''d''], [''s'', ''success'']],
     ev 1699990004 [[''d'', ''e''], [''s'', ''canceled''], [''amt'', ''100'']],
     ev 1699990005 [[''d'', ''f''], [''s'', ''success''], [''amt'', ''12abc'']]]))) = [5000, 12]
   \<and> successfulOrders (tallyStep tallyInit
         (ev 1699990002 [[''d'', ''c''], [''s'', ''success''], [''amt'', ''-5'']])) = 1
   \<and> tradeAmounts (tallyStep tallyInit
         (ev 1699990002 [[''d'', ''c''], [''s'', ''success''], [''amt'', ''-5'']])) = []"
proof -
  let ?evs = "[ev 1699990000 [[''d'', ''a''], [''s'', ''success''], [''amt'', ''5000'']],
     ev 1699990001 [[''d'', ''b''], [''s'', ''success''], [''amt'', ''abc'']],
     ev 1699990002 [[''d'', ''c''], [''s'', ''success''], [''amt'', ''-5'']],
     ev 1699990003 [[''d'', ''d''], [''s'', ''success'']],
     ev 1699990004 [[''d'', ''e''], [''s'', ''canceled''], [''amt'', ''100'']],
     ev 1699990005 [[''d'', ''f''], [''s'', ''success''], [''amt'', ''12abc'']]]"
  let ?c = "ev 1699990002 [[''d'', ''c''], [''s'', ''success''], [''amt'', ''-5'']]"
  have d: "mapValues (dedupOrders ?evs) = ?evs"
    by (simp add: mapValues_def dedupOrders_def dedupStep_def getTagValue_def mapGet_def)
  have s: "filter isSuccess ?evs =
    [ev 1699990000 [[''d'', ''a''], [''s'', ''success''], [''amt'', ''5000'']],
     ev 1699990001 [[''d'', ''b''], [''s'', ''success''], [''amt'', ''abc'']],
     ev 1699990002 [[''d'', ''c''], [''s'', ''success''], [''amt'', ''-5'']],
     ev 1699990003 [[''d'', ''d''], [''s'', ''success'']],
     ev 1699990005 [[''d'', ''f''], [''s'', ''success''], [''amt'', ''12abc'']]]"
    by (simp add: isSuccess_def getTagValue_def)
  have a: "List.map_filter includedAmount (filter isSuccess ?evs) = [5000, 12]"
    unfolding s
    by (simp add: List.map_filter_def includedAmount_def getTagValue_def parseInt_def
        isWhiteSpace_def isDigit_def digitsValue_def digitValue_def)
  have sc: "isSuccess ?c" by (simp add: isSuccess_def getTagValue_def)
  have ic: "includedAmount ?c = None"
    by (simp add: includedAmount_def getTagValue_def parseInt_def
        isWhiteSpace_def isDigit_def digitsValue_def digitValue_def)
  note T = tally_spec [where es = "mapValues (dedupOrders ?evs)" and dateNow = 1700000000000
      and devFee = "[]" and orders = ?evs and e = ?c and t = tallyInit]
  have "successfulTrades (computeMetrics 1700000000000 [] ?evs) =
      length (filter isSuccess (mapValues (dedupOrders ?evs)))"
    using T by blast
  then have c1: "successfulTrades (computeMetrics 1700000000000 [] ?evs) = 5"
    unfolding d s by simp
  have "totalVolumeSats (computeMetrics 1700000000000 [] ?evs) =
      sum_list (List.map_filter includedAmount (filter isSuccess (mapValues (dedupOrders ?evs))))"
    using T by blast
  then have c2: "totalVolumeSats (computeMetrics 1700000000000 [] ?evs) = 5012"
    unfolding d a by simp
  have "tradeAmounts (tallyOrders (mapValues (dedupOrders ?evs))) =
      List.map_filter includedAmount (filter isSuccess (mapValues (dedupOrders ?evs)))"
    using T by blast
  then have c3: "tradeAmounts (tallyOrders (mapValues (dedupOrders ?evs))) = [5000, 12]"
    unfolding d a by simp
  have "successfulOrders (tallyStep tallyInit ?c) = successfulOrders tallyInit + 1
      \<and> tradeAmounts (tallyStep tallyInit ?c)
          = tradeAmounts tallyInit @ (case includedAmount ?c of None \<Rightarrow> [] | Some n \<Rightarrow> [n])"
    using T sc by blast
  then have c4: "successfulOrders (tallyStep tallyInit ?c) = 1
      \<and> tradeAmounts (tallyStep tallyInit ?c) = []"
    unfolding ic by (simp add: tallyInit_def)
  show ?thesis using c1 c2 c3 c4 by blast
qed

section \<open>Activity consistency\<close>

lemma newSet_fold:
  "distinct acc \<Longrightarrow>
   distinct (foldl (\<lambda>s x. if x \<in> set s then s else s @ [x]) acc xs)
   \<and> set (foldl (\<lambda>s x. if x \<in> set s then s else s @ [x]) acc xs) = set acc \<union> set xs"
  by (induction xs arbitrary: acc) auto

lemma distinct_newSet: "distinct (newSet xs)"
  using newSet_fold [of "[]" xs] by (simp add: newSet_def)

lemma set_newSet: "set (newSet xs) = set xs"
  using newSet_fold [of "[]" xs] by (simp add: newSet_def)

lemma length_newSet: "length (newSet xs) = card (set xs)"
  using distinct_card [OF distinct_newSet, of xs] by (simp add: set_newSet)

lemma sort_newSet: "sort (newSet xs) = sorted_list_of_set (set xs)"
proof -
  have "sorted_list_of_set (set (sort (newSet xs))) = sort (newSet xs)"
    by (intro sorted_list_of_set.idem_if_sorted_distinct)
       (simp_all add: distinct_newSet)
  then show ?thesis by (simp add: set_newSet)
qed

lemma foldl_gapStep:
  "foldl gapStep (m, p) ds = (Max (insert m (set (gapsBefore p ds))), last (p # ds))"
proof (induction ds arbitrary: m p)
  case Nil
  then show ?case by simp
next
  case (Cons d ds)
  have "foldl gapStep (m, p) (d # ds) = foldl gapStep (max m (max 0 (d - p - 1)), d) ds"
    by (simp add: gapStep_def Let_def)
  also have "\<dots> = (Max (insert (max m (max 0 (d - p - 1))) (set (gapsBefore d ds))), last (d # ds))"
    by (rule Cons.IH)
  also have "Max (insert (max m (max 0 (d - p - 1))) (set (gapsBefore d ds)))
      = Max (insert m (set (gapsBefore p (d # ds))))"
    by (cases "set (gapsBefore d ds) = {}") (simp_all add: max.assoc)
  finally show ?case by simp
qed

lemma gapsBefore_nonneg: "g \<in> set (gapsBefore p ds) \<Longrightarrow> 0 \<le> g"
  by (induction p ds rule: gapsBefore.induct) auto

lemma gapsBefore_empty_iff: "gapsBefore p ds = [] \<longleftrightarrow> ds = []"
  by (cases ds) auto


lemma newSet_Nil_iff: "newSet xs = [] \<longleftrightarrow> xs = []"
  using set_newSet [of xs] by (metis set_empty)

lemma activity_unfold:
  "computeActivityConsistency tss now =
     (if windowDays tss now = {} then \<lparr>activeDays = 0, maxGap = 30\<rparr>
      else \<lparr>activeDays = card (windowDays tss now),
            maxGap =
              max (Max (insert 0 (set (gapsBefore ((now - 30 * 86400) div 86400)
                                        (sorted_list_of_set (windowDays tss now))))))
                  (max 0 (now div 86400
                           - last ((now - 30 * 86400) div 86400
                                     # sorted_list_of_set (windowDays tss now))))\<rparr>)"
proof -
  let ?ds = "map (\<lambda>ts. ts div 86400) (filter (\<lambda>ts. ts \<ge> now - 30 * 86400) tss)"
  have D: "windowDays tss now = set ?ds" by (simp only: windowDays_def)
  have unf: "computeActivityConsistency tss now =
     (if length (newSet ?ds) = 0 then \<lparr>activeDays = 0, maxGap = 30\<rparr>
      else case foldl gapStep (0, (now - 30 * 86400) div 86400) (sort (newSet ?ds)) of
             (curMax, prevDay) \<Rightarrow>
               \<lparr>activeDays = length (newSet ?ds),
                maxGap = max curMax (max 0 (now div 86400 - prevDay))\<rparr>)"
    unfolding computeActivityConsistency_def SECONDS_PER_DAY_def Let_def ..
  have card0: "(card (windowDays tss now) = 0) = (windowDays tss now = {})"
    unfolding D by (simp only: card_eq_0_iff List.finite_set simp_thms)
  show ?thesis
    unfolding unf foldl_gapStep sort_newSet length_newSet D [symmetric]
    by (simp only: prod.case card0)
qed

text \<open>
  Claim C7. If no timestamp lies in the trailing 30-day window
  (\<open>ts \<ge> now - 30 * 86400\<close>), the analyzer returns \<open>activeDays = 0\<close> and \<open>maxGap = 30\<close>.
  Otherwise \<open>activeDays\<close> is the number of distinct calendar-day buckets
  \<open>floor (ts / 86400)\<close> in the window, and \<open>maxGap\<close> is the greatest of the gaps before
  each active day (\<open>day - previousDay - 1\<close>, not below 0, starting from the calendar
  day of \<open>now - 30 * 86400\<close>) and of the final gap from the last active day to
  \<open>today = floor (now / 86400)\<close>.
\<close>

theorem activity_consistency_spec:
  "(windowDays tss now = {} \<longrightarrow>
      computeActivityConsistency tss now = \<lparr>activeDays = 0, maxGap = 30\<rparr>)
   \<and> (windowDays tss now \<noteq> {} \<longrightarrow>
      activeDays (computeActivityConsistency tss now) = card (windowDays tss now)
      \<and> maxGap (computeActivityConsistency tss now) =
          Max (set (gapsBefore ((now - 30 * 86400) div 86400)
                      (sorted_list_of_set (windowDays tss now))
                    @ [max 0 (now div 86400 - last (sorted_list_of_set (windowDays tss now)))])))
   \<and> (windowDays tss now = {} \<longleftrightarrow> (\<forall>ts \<in> set tss. ts < now - 30 * 86400))"
proof -
  let ?D = "windowDays tss now"
  let ?days = "sorted_list_of_set ?D"
  let ?seed = "(now - 30 * 86400) div 86400"
  let ?G = "set (gapsBefore ?seed ?days)"
  let ?f = "max 0 (now div 86400 - last ?days)"
  have fin: "finite ?D" by (simp add: windowDays_def)
  have empty: "?D = {} \<longleftrightarrow> (\<forall>ts \<in> set tss. ts < now - 30 * 86400)"
    by (auto simp: windowDays_def filter_empty_conv)
  have ne: "maxGap (computeActivityConsistency tss now) = Max (set (gapsBefore ?seed ?days @ [?f]))"
    if "?D \<noteq> {}"
  proof -
    have dne: "?days \<noteq> []" using that fin by simp
    then have gne: "?G \<noteq> {}" by (simp add: gapsBefore_empty_iff)
    have "Max (insert 0 ?G) = Max ?G"
    proof -
      have "0 \<le> Max ?G" using gne gapsBefore_nonneg [of _ ?seed ?days]
        by (meson List.finite_set Max_in)
      then show ?thesis using gne by (simp add: max_def)
    qed
    moreover have "Max (set (gapsBefore ?seed ?days @ [?f])) = max ?f (Max ?G)"
      using gne by simp
    ultimately show ?thesis using that dne by (simp add: activity_unfold max.commute)
  qed
  show ?thesis using empty ne by (simp add: activity_unfold)
qed


theorem activity_consistency_spec_witness:
  "activeDays (computeActivityConsistency
      [1699740800, 1699136000, 1697321600, 1699740805] 1700000000) = 2
   \<and> maxGap (computeActivityConsistency
      [1699740800, 1699136000, 1697321600, 1699740805] 1700000000) = 19
   \<and> computeActivityConsistency [1697321600] 1700000000 = \<lparr>activeDays = 0, maxGap = 30\<rparr>"
proof -
  have wd: "windowDays [1699740800, 1699136000, 1697321600, 1699740805] 1700000000
      = {19672, 19665}"
    by (auto simp: windowDays_def)
  have sl: "sorted_list_of_set {19672, 19665 :: int} = [19665, 19672]"
    by simp
  have w0: "windowDays [1697321600] 1700000000 = {}"
    by (simp add: windowDays_def)
  have "activeDays (computeActivityConsistency
      [1699740800, 1699136000, 1697321600, 1699740805] 1700000000) = 2
   \<and> maxGap (computeActivityConsistency
      [1699740800, 1699136000, 1697321600, 1699740805] 1700000000) = 19"
    using activity_consistency_spec [of "[1699740800, 1699136000, 1697321600, 1699740805]" 1700000000]
    unfolding wd sl by simp
  moreover have "computeActivityConsistency [1697321600] 1700000000 = \<lparr>activeDays = 0, maxGap = 30\<rparr>"
    using activity_consistency_spec [of "[1697321600]" 1700000000] w0 by blast
  ultimately show ?thesis by blast
qed

section \<open>The report as a function of the events and the clock\<close>

lemma keptFor_noTies:
  assumes nt: "noTies evs"
  shows "keptFor k w evs \<longleftrightarrow>
     w \<in> set evs \<and> orderIdOf w = Some k
       \<and> (\<forall>x \<in> set evs. orderIdOf x = Some k \<longrightarrow> created_at x \<le> created_at w)"
proof
  assume "keptFor k w evs"
  then show "w \<in> set evs \<and> orderIdOf w = Some k
       \<and> (\<forall>x \<in> set evs. orderIdOf x = Some k \<longrightarrow> created_at x \<le> created_at w)"
    using keptFor_member keptFor_greatest by blast
next
  assume a: "w \<in> set evs \<and> orderIdOf w = Some k
       \<and> (\<forall>x \<in> set evs. orderIdOf x = Some k \<longrightarrow> created_at x \<le> created_at w)"
  then obtain pre post where sp: "evs = pre @ w # post" and first: "w \<notin> set pre"
    using split_list_first [of w evs] by blast
  have "created_at x < created_at w" if x: "x \<in> set pre" "orderIdOf x = Some k" for x
  proof -
    have xin: "x \<in> set evs" using x sp by simp
    then have le: "created_at x \<le> created_at w" using a x by blast
    have "x \<noteq> w" using x first by blast
    moreover have "orderIdOf x \<noteq> None \<and> orderIdOf x = orderIdOf w" using a x by simp
    moreover have "w \<in> set evs" using a by simp
    ultimately have "created_at x \<noteq> created_at w"
      using nt xin unfolding noTies_def by blast
    then show ?thesis using le by simp
  qed
  moreover have "created_at x \<le> created_at w" if "x \<in> set post" "orderIdOf x = Some k" for x
    using a that sp by simp
  ultimately show "keptFor k w evs"
    unfolding keptFor_def using sp a by blast
qed

lemma noTies_perm: "mset evs = mset evs' \<Longrightarrow> noTies evs \<Longrightarrow> noTies evs'"
  unfolding noTies_def using mset_eq_setD by blast

lemma dedup_perm_map:
  assumes "mset evs = mset evs'" "noTies evs"
  shows "mapGet (dedupOrders evs) k = mapGet (dedupOrders evs') k"
proof -
  have s: "set evs = set evs'" using assms(1) by (rule mset_eq_setD)
  have nt': "noTies evs'" using assms by (rule noTies_perm)
  have iff: "mapGet (dedupOrders evs) k = Some w \<longleftrightarrow> mapGet (dedupOrders evs') k = Some w" for w
    unfolding dedup_keptFor keptFor_noTies [OF assms(2)] keptFor_noTies [OF nt'] s ..
  show ?thesis
  proof (cases "mapGet (dedupOrders evs) k")
    case None
    have "mapGet (dedupOrders evs') k = None"
    proof (rule ccontr)
      assume "mapGet (dedupOrders evs') k \<noteq> None"
      then obtain w where "mapGet (dedupOrders evs') k = Some w" by blast
      then have "mapGet (dedupOrders evs) k = Some w" by (simp only: iff)
      then show False using None by simp
    qed
    then show ?thesis using None by simp
  next
    case (Some w)
    then have "mapGet (dedupOrders evs') k = Some w" by (simp only: iff)
    then show ?thesis using Some by simp
  qed
qed

lemma dedup_perm:
  assumes "mset evs = mset evs'" "noTies evs"
  shows "mset (dedupOrders evs) = mset (dedupOrders evs')"
proof -
  have "map_of (dedupOrders evs) = map_of (dedupOrders evs')"
    using dedup_perm_map [OF assms] by (auto simp: mapGet_def)
  then have "set (dedupOrders evs) = set (dedupOrders evs')"
    using distinct_dedupOrders map_of_inject_set by blast
  moreover have "distinct (dedupOrders evs)" "distinct (dedupOrders evs')"
    using distinct_dedupOrders distinct_map by blast+
  ultimately show ?thesis by (simp add: set_eq_iff_mset_eq_distinct)
qed


lemma mset_map_filter:
  "mset xs = mset ys \<Longrightarrow> mset (List.map_filter f xs) = mset (List.map_filter f ys)"
proof -
  assume "mset xs = mset ys"
  then have "mset (filter (\<lambda>x. f x \<noteq> None) xs) = mset (filter (\<lambda>x. f x \<noteq> None) ys)"
    by simp
  then have "image_mset (the \<circ> f) (mset (filter (\<lambda>x. f x \<noteq> None) xs))
      = image_mset (the \<circ> f) (mset (filter (\<lambda>x. f x \<noteq> None) ys))"
    by (rule arg_cong)
  then have "mset (map (the \<circ> f) (filter (\<lambda>x. f x \<noteq> None) xs))
      = mset (map (the \<circ> f) (filter (\<lambda>x. f x \<noteq> None) ys))"
    by (simp only: mset_map)
  then show ?thesis by (simp add: List.map_filter_def)
qed

lemma sort_perm: "mset xs = mset ys \<Longrightarrow> sort xs = sort (ys :: int list)"
  by (rule properties_for_sort) simp_all

lemma sum_list_perm: "mset xs = mset ys \<Longrightarrow> sum_list xs = sum_list (ys :: int list)"
  by (metis sum_mset_sum_list)

lemma computeTradeStats_perm:
  assumes "mset xs = mset ys"
  shows "computeTradeStats xs = computeTradeStats ys"
proof -
  have l: "length xs = length ys" using assms by (rule mset_eq_length)
  have "foldl (\<lambda>acc val. acc + val) 0 xs = foldl (\<lambda>acc val. acc + val) 0 ys"
    using sum_list_perm [OF assms] by (simp add: foldl_add_sum_list)
  then show ?thesis
    unfolding computeTradeStats_def sort_perm [OF assms] l by simp
qed

lemma computeRollingWindows_perm:
  assumes "mset xs = mset ys"
  shows "computeRollingWindows xs now = computeRollingWindows ys now"
proof -
  have "length (filter P xs) = length (filter P ys)" for P
  proof -
    have "mset (filter P xs) = mset (filter P ys)" using assms by simp
    then show ?thesis by (rule mset_eq_length)
  qed
  then show ?thesis by (simp add: computeRollingWindows_def)
qed

lemma computeActivityConsistency_perm:
  assumes "mset xs = mset ys"
  shows "computeActivityConsistency xs now = computeActivityConsistency ys now"
proof -
  have "set xs = set ys" using assms by (rule mset_eq_setD)
  then have "windowDays xs now = windowDays ys now" by (simp add: windowDays_def)
  then show ?thesis by (simp add: activity_unfold)
qed

lemma tally_perm:
  assumes "mset es = mset es'"
  shows "successfulOrders (tallyOrders es) = successfulOrders (tallyOrders es')"
    and "totalVolumeSats_acc (tallyOrders es) = totalVolumeSats_acc (tallyOrders es')"
    and "mset (tradeAmounts (tallyOrders es)) = mset (tradeAmounts (tallyOrders es'))"
    and "mset (successfulTradeTimestamps (tallyOrders es))
          = mset (successfulTradeTimestamps (tallyOrders es'))"
proof -
  have f: "mset (filter isSuccess es) = mset (filter isSuccess es')" using assms by simp
  show "successfulOrders (tallyOrders es) = successfulOrders (tallyOrders es')"
    using mset_eq_length [OF f] by (simp add: tallyOrders_eq)
  have m: "mset (List.map_filter includedAmount (filter isSuccess es))
      = mset (List.map_filter includedAmount (filter isSuccess es'))"
    using f by (rule mset_map_filter)
  then show "mset (tradeAmounts (tallyOrders es)) = mset (tradeAmounts (tallyOrders es'))"
    by (simp add: tallyOrders_eq)
  show "totalVolumeSats_acc (tallyOrders es) = totalVolumeSats_acc (tallyOrders es')"
    using sum_list_perm [OF m] by (simp add: tallyOrders_eq)
  have "image_mset created_at (mset (filter isSuccess es))
      = image_mset created_at (mset (filter isSuccess es'))"
    using f by (rule arg_cong)
  then have "mset (map created_at (filter isSuccess es)) = mset (map created_at (filter isSuccess es'))"
    by (simp only: mset_map)
  then show "mset (successfulTradeTimestamps (tallyOrders es))
          = mset (successfulTradeTimestamps (tallyOrders es'))"
    by (simp add: tallyOrders_eq)
qed

lemma scan_range_perm:
  assumes "mset evs = mset evs'"
  shows "firstOrderTs (scanOrders evs) = firstOrderTs (scanOrders evs')"
    and "lastOrderTs (scanOrders evs) = lastOrderTs (scanOrders evs')"
proof -
  have s: "set evs = set evs'" using assms by (rule mset_eq_setD)
  then have e: "evs = [] \<longleftrightarrow> evs' = []" by (metis set_empty)
  show "firstOrderTs (scanOrders evs) = firstOrderTs (scanOrders evs')"
    using s e by (simp add: firstOrderTs_scanOrders)
  show "lastOrderTs (scanOrders evs) = lastOrderTs (scanOrders evs')"
    using s by (simp add: lastOrderTs_scanOrders)
qed

lemma firstDevFeeTs_perm:
  assumes "mset d = mset d'"
  shows "firstDevFeeTs d = firstDevFeeTs d'"
proof -
  have s: "set d = set d'" using assms by (rule mset_eq_setD)
  then have e: "d = [] \<longleftrightarrow> d' = []" by (metis set_empty)
  show ?thesis using s e by (simp add: firstDevFeeTs_Min)
qed

lemma daysActiveOf_cong:
  assumes "firstOrderTs st = firstOrderTs st'" and "lastOrderTs st = lastOrderTs st'"
  shows "daysActiveOf now fd st = daysActiveOf now fd st'"
  unfolding daysActiveOf_def assms ..

lemma metricsAt_perm:
  assumes d: "mset devFee = mset devFee'" and o: "mset orders = mset orders'"
    and nt: "noTies orders"
  shows "metricsAt now devFee orders = metricsAt now devFee' orders'"
proof -
  let ?es = "mapValues (dedupOrders orders)" and ?es' = "mapValues (dedupOrders orders')"
  have m: "mset (dedupOrders orders) = mset (dedupOrders orders')"
    using o nt by (rule dedup_perm)
  then have "image_mset snd (mset (dedupOrders orders)) = image_mset snd (mset (dedupOrders orders'))"
    by (rule arg_cong)
  then have v: "mset ?es = mset ?es'"
    unfolding mapValues_def by (simp only: mset_map)
  note t = tally_perm [OF v]
  have fd: "firstDevFeeTs devFee = firstDevFeeTs devFee'" using d by (rule firstDevFeeTs_perm)
  note r = scan_range_perm [OF o]
  have da: "daysActiveOf now (firstDevFeeTs devFee) (scanOrders orders)
      = daysActiveOf now (firstDevFeeTs devFee') (scanOrders orders')"
    unfolding fd by (rule daysActiveOf_cong) (rule r)+
  have ts: "computeTradeStats (tradeAmounts (tallyOrders ?es))
      = computeTradeStats (tradeAmounts (tallyOrders ?es'))"
    using t(3) by (rule computeTradeStats_perm)
  have rw: "computeRollingWindows (successfulTradeTimestamps (tallyOrders ?es)) now
      = computeRollingWindows (successfulTradeTimestamps (tallyOrders ?es')) now"
    using t(4) by (rule computeRollingWindows_perm)
  have ac: "computeActivityConsistency (successfulTradeTimestamps (tallyOrders ?es)) now
      = computeActivityConsistency (successfulTradeTimestamps (tallyOrders ?es')) now"
    using t(4) by (rule computeActivityConsistency_perm)
  have la: "length (tradeAmounts (tallyOrders ?es)) = length (tradeAmounts (tallyOrders ?es'))"
    using t(3) by (rule mset_eq_length)
  have lo: "length orders = length orders'" using o by (rule mset_eq_length)
  have ld: "length devFee = length devFee'" using d by (rule mset_eq_length)
  have lm: "length (dedupOrders orders) = length (dedupOrders orders')"
    using m by (rule mset_eq_length)
  show ?thesis
    unfolding metricsAt_def Let_def ordersMap_scanOrders
    unfolding da
    unfolding fd ts rw ac la lo ld lm t(1) t(2) r(2)
    by (rule refl)
qed


text \<open>
  Claim C1, as the code has it. computeMetrics has no time parameter: it reads the
  clock, and the report is a function of the two event sequences and of
  \<open>now = floor (Date.now() / 1000)\<close>. Two invocations on the same event sequences whose
  clock readings fall in the same second yield identical reports. The order of the
  events does not matter either (the report is a function of the two event multisets
  and of \<open>now\<close>) as long as no two distinct order events share both identifier and
  timestamp.
\<close>

theorem computeMetrics_function_of_events_and_second:
  "(dateNow div 1000 = dateNow' div 1000 \<longrightarrow>
      computeMetrics dateNow devFee orders = computeMetrics dateNow' devFee orders)
   \<and> (dateNow div 1000 = dateNow' div 1000 \<and> mset devFee = mset devFee'
        \<and> mset orders = mset orders' \<and> noTies orders \<longrightarrow>
      computeMetrics dateNow devFee orders = computeMetrics dateNow' devFee' orders')"
proof (intro conjI impI)
  assume "dateNow div 1000 = dateNow' div 1000"
  then show "computeMetrics dateNow devFee orders = computeMetrics dateNow' devFee orders"
    by (simp add: computeMetrics_def)
next
  assume a: "dateNow div 1000 = dateNow' div 1000 \<and> mset devFee = mset devFee'
        \<and> mset orders = mset orders' \<and> noTies orders"
  then have "metricsAt (dateNow div 1000) devFee orders = metricsAt (dateNow div 1000) devFee' orders'"
    by (intro metricsAt_perm) simp_all
  then show "computeMetrics dateNow devFee orders = computeMetrics dateNow' devFee' orders'"
    using a by (simp add: computeMetrics_def)
qed

text \<open>
  The same event arrays, two invocations one day apart: the reports differ. And, at
  one and the same time, two tied events for one identifier in the two possible
  orders: the reports differ.
\<close>

theorem computeMetrics_clock_and_order_counterexample:
  "computeMetrics 1700000000000 [] [ev 1699990000 [[''d'', ''a''], [''s'', ''success'']]]
     \<noteq> computeMetrics 1700086400000 [] [ev 1699990000 [[''d'', ''a''], [''s'', ''success'']]]
   \<and> computeMetrics 1700000000000 []
         [ev 1699990000 [[''d'', ''a''], [''s'', ''success'']],
          ev 1699990000 [[''d'', ''a''], [''s'', ''canceled'']]]
     \<noteq> computeMetrics 1700000000000 []
         [ev 1699990000 [[''d'', ''a''], [''s'', ''canceled'']],
          ev 1699990000 [[''d'', ''a''], [''s'', ''success'']]]"
proof -
  have a: "daysSinceLast (computeMetrics 1700000000000 []
             [ev 1699990000 [[''d'', ''a''], [''s'', ''success'']]]) = 0"
    by (simp add: computeMetrics_metricsAt daysSinceLast_metricsAt scanOrders_def scanStep_def
        scanInit_def trackLast_def SECONDS_PER_DAY_def)
  have b: "daysSinceLast (computeMetrics 1700086400000 []
             [ev 1699990000 [[''d'', ''a''], [''s'', ''success'']]]) = 1"
    by (simp add: computeMetrics_metricsAt daysSinceLast_metricsAt scanOrders_def scanStep_def
        scanInit_def trackLast_def SECONDS_PER_DAY_def)
  have c: "successfulTrades (computeMetrics 1700000000000 []
         [ev 1699990000 [[''d'', ''a''], [''s'', ''success'']],
          ev 1699990000 [[''d'', ''a''], [''s'', ''canceled'']]]) = 1"
    by (simp add: computeMetrics_metricsAt successfulTrades_metricsAt tallyOrders_eq
        mapValues_def dedupOrders_def dedupStep_def getTagValue_def mapGet_def isSuccess_def)
  have d: "successfulTrades (computeMetrics 1700000000000 []
         [ev 1699990000 [[''d'', ''a''], [''s'', ''canceled'']],
          ev 1699990000 [[''d'', ''a''], [''s'', ''success'']]]) = 0"
    by (simp add: computeMetrics_metricsAt successfulTrades_metricsAt tallyOrders_eq
        mapValues_def dedupOrders_def dedupStep_def getTagValue_def mapGet_def isSuccess_def)
  have clock: "computeMetrics 1700000000000 [] [ev 1699990000 [[''d'', ''a''], [''s'', ''success'']]]
     \<noteq> computeMetrics 1700086400000 [] [ev 1699990000 [[''d'', ''a''], [''s'', ''success'']]]"
  proof
    assume "computeMetrics 1700000000000 [] [ev 1699990000 [[''d'', ''a''], [''s'', ''success'']]]
      = computeMetrics 1700086400000 [] [ev 1699990000 [[''d'', ''a''], [''s'', ''success'']]]"
    then have "daysSinceLast (computeMetrics 1700000000000 []
             [ev 1699990000 [[''d'', ''a''], [''s'', ''success'']]])
      = daysSinceLast (computeMetrics 1700086400000 []
             [ev 1699990000 [[''d'', ''a''], [''s'', ''success'']]])"
      by (rule arg_cong)
    then show False unfolding a b by simp
  qed
  have order: "computeMetrics 1700000000000 []
         [ev 1699990000 [[''d'', ''a''], [''s'', ''success'']],
          ev 1699990000 [[''d'', ''a''], [''s'', ''canceled'']]]
     \<noteq> computeMetrics 1700000000000 []
         [ev 1699990000 [[''d'', ''a''], [''s'', ''canceled'']],
          ev 1699990000 [[''d'', ''a''], [''s'', ''success'']]]"
  proof
    assume "computeMetrics 1700000000000 []
         [ev 1699990000 [[''d'', ''a''], [''s'', ''success'']],
          ev 1699990000 [[''d'', ''a''], [''s'', ''canceled'']]]
     = computeMetrics 1700000000000 []
         [ev 1699990000 [[''d'', ''a''], [''s'', ''canceled'']],
          ev 1699990000 [[''d'', ''a''], [''s'', ''success'']]]"
    then have "successfulTrades (computeMetrics 1700000000000 []
         [ev 1699990000 [[''d'', ''a''], [''s'', ''success'']],
          ev 1699990000 [[''d'', ''a''], [''s'', ''canceled'']]])
     = successfulTrades (computeMetrics 1700000000000 []
         [ev 1699990000 [[''d'', ''a''], [''s'', ''canceled'']],
          ev 1699990000 [[''d'', ''a''], [''s'', ''success'']]])"
      by (rule arg_cong)
    then show False unfolding c d by simp
  qed
  show ?thesis using clock order by (rule conjI)
qed

theorem computeMetrics_function_of_events_and_second_witness:
  "computeMetrics 1700000000000
       [ev 1690000000 [], ev 1665440000 []]
       [ev 1699990000 [[''d'', ''a''], [''s'', ''success''], [''amt'', ''5000'']],
        ev 1699000000 [[''d'', ''b''], [''s'', ''success''], [''amt'', ''700'']],
        ev 1699980000 [[''d'', ''a''], [''s'', ''pending'']]]
     = computeMetrics 1700000000999
       [ev 1665440000 [], ev 1690000000 []]
       [ev 1699980000 [[''d'', ''a''], [''s'', ''pending'']],
        ev 1699990000 [[''d'', ''a''], [''s'', ''success''], [''amt'', ''5000'']],
        ev 1699000000 [[''d'', ''b''], [''s'', ''success''], [''amt'', ''700'']]]
   \<and> computeMetrics 1700000000000 []
       [ev 1699990000 [[''d'', ''a''], [''s'', ''success'']],
        ev 1699990000 [[''d'', ''a''], [''s'', ''canceled'']]]
     = computeMetrics 1700000000999 []
       [ev 1699990000 [[''d'', ''a''], [''s'', ''success'']],
        ev 1699990000 [[''d'', ''a''], [''s'', ''canceled'']]]"
proof -
  have same_second: "(1700000000000 :: int) div 1000 = 1700000000999 div 1000" by simp
  have anchors: "mset [ev 1690000000 [], ev 1665440000 []]
      = mset [ev 1665440000 [], ev 1690000000 []]"
    by simp
  have orders: "mset [ev 1699990000 [[''d'', ''a''], [''s'', ''success''], [''amt'', ''5000'']],
        ev 1699000000 [[''d'', ''b''], [''s'', ''success''], [''amt'', ''700'']],
        ev 1699980000 [[''d'', ''a''], [''s'', ''pending'']]]
      = mset [ev 1699980000 [[''d'', ''a''], [''s'', ''pending'']],
        ev 1699990000 [[''d'', ''a''], [''s'', ''success''], [''amt'', ''5000'']],
        ev 1699000000 [[''d'', ''b''], [''s'', ''success''], [''amt'', ''700'']]]"
    by simp
  have no_ties: "noTies [ev 1699990000 [[''d'', ''a''], [''s'', ''success''], [''amt'', ''5000'']],
        ev 1699000000 [[''d'', ''b''], [''s'', ''success''], [''amt'', ''700'']],
        ev 1699980000 [[''d'', ''a''], [''s'', ''pending'']]]"
    by (simp add: noTies_def orderIdOf_def getTagValue_def)
  have reordered: "computeMetrics 1700000000000
       [ev 1690000000 [], ev 1665440000 []]
       [ev 1699990000 [[''d'', ''a''], [''s'', ''success''], [''amt'', ''5000'']],
        ev 1699000000 [[''d'', ''b''], [''s'', ''success''], [''amt'', ''700'']],
        ev 1699980000 [[''d'', ''a''], [''s'', ''pending'']]]
     = computeMetrics 1700000000999
       [ev 1665440000 [], ev 1690000000 []]
       [ev 1699980000 [[''d'', ''a''], [''s'', ''pending'']],
        ev 1699990000 [[''d'', ''a''], [''s'', ''success''], [''amt'', ''5000'']],
        ev 1699000000 [[''d'', ''b''], [''s'', ''success''], [''amt'', ''700'']]]"
    using computeMetrics_function_of_events_and_second
      [of 1700000000000 1700000000999
        "[ev 1690000000 [], ev 1665440000 []]"
        "[ev 1699990000 [[''d'', ''a''], [''s'', ''success''], [''amt'', ''5000'']],
          ev 1699000000 [[''d'', ''b''], [''s'', ''success''], [''amt'', ''700'']],
          ev 1699980000 [[''d'', ''a''], [''s'', ''pending'']]]"
        "[ev 1665440000 [], ev 1690000000 []]"
        "[ev 1699980000 [[''d'', ''a''], [''s'', ''pending'']],
          ev 1699990000 [[''d'', ''a''], [''s'', ''success''], [''amt'', ''5000'']],
          ev 1699000000 [[''d'', ''b''], [''s'', ''success''], [''amt'', ''700'']]]"]
      same_second anchors orders no_ties
    by blast
  have same_sequence: "computeMetrics 1700000000000 []
       [ev 1699990000 [[''d'', ''a''], [''s'', ''success'']],
        ev 1699990000 [[''d'', ''a''], [''s'', ''canceled'']]]
     = computeMetrics 1700000000999 []
       [ev 1699990000 [[''d'', ''a''], [''s'', ''success'']],
        ev 1699990000 [[''d'', ''a''], [''s'', ''canceled'']]]"
    using computeMetrics_function_of_events_and_second
      [where dateNow = 1700000000000 and dateNow' = 1700000000999 and devFee = "[]"
         and orders = "[ev 1699990000 [[''d'', ''a''], [''s'', ''success'']],
                        ev 1699990000 [[''d'', ''a''], [''s'', ''canceled'']]]"]
      same_second
    by blast
  show ?thesis using reordered same_sequence by (rule conjI)
qed

end
